theory Spec2Isabelle
  imports Complex_Main "HOL-Library.Word" "HOL-Library.Log_Nat"
begin

unbundle bit_operations_syntax

section \<open>can4python: frames, signals and the BCM control channel\<close>

text \<open>
  A shallow embedding of the modules \<^verbatim>\<open>utilities.py\<close>, \<^verbatim>\<open>cansignal.py\<close>,
  \<^verbatim>\<open>canframe.py\<close>, \<^verbatim>\<open>canframe_definition.py\<close>, \<^verbatim>\<open>caninterface_bcm.py\<close> and
  \<^verbatim>\<open>canbus.py\<close>. Python integers are \<open>int\<close>, a \<^verbatim>\<open>bytes\<close> object is a list of
  8-bit words, an exception is the \<open>Inl\<close> branch of a sum.
\<close>

subsection \<open>Exceptions and constants\<close>

datatype error =
    CanException
  | CanNotFoundByKernelException
  | StructError
  | IndexError
  | AssertionError
  | OverflowError
  | ValueError
  | ZeroDivisionError
  | TypeError
  | KeyError
  | OSError

type_synonym byte = "8 word"

datatype endianness = LITTLE_ENDIAN | BIG_ENDIAN

datatype frame_format = CAN_FRAMEFORMAT_STANDARD | CAN_FRAMEFORMAT_EXTENDED

definition MAX_NUMBER_OF_CAN_DATA_BYTES :: nat where
  "MAX_NUMBER_OF_CAN_DATA_BYTES = 8"

definition BITS_PER_BYTE :: int where
  "BITS_PER_BYTE = 8"

definition BITS_IN_FULL_DATA :: int where
  "BITS_IN_FULL_DATA = 64"

definition MAX_CAN_FRAME_ID_STANDARD :: int where
  "MAX_CAN_FRAME_ID_STANDARD = 0x7ff"

definition MAX_CAN_FRAME_ID_EXTENDED :: int where
  "MAX_CAN_FRAME_ID_EXTENDED = 0x1fffffff"

definition CAN_MASK_EXTENDED_FRAME_BIT :: int where
  "CAN_MASK_EXTENDED_FRAME_BIT = 0x80000000"

definition CAN_MASK_ID_ONLY :: int where
  "CAN_MASK_ID_ONLY = 0x1FFFFFFF"

subsection \<open>The \<^verbatim>\<open>struct\<close> codes for unsigned integers\<close>

text \<open>
  \<^verbatim>\<open>struct.pack\<close> of an unsigned integer in \<open>n\<close> bytes, most significant byte first, and
  its inverse. \<^verbatim>\<open>struct.pack\<close> raises \<^verbatim>\<open>struct.error\<close> for a value outside
  \<open>0 .. 2^(8n) - 1\<close>; that check is \<open>pack_uint\<close>.
\<close>

definition int_to_bytes_be :: "nat \<Rightarrow> int \<Rightarrow> byte list" where
  "int_to_bytes_be n v = map (\<lambda>k. word_of_int (drop_bit (8 * (n - 1 - k)) v)) [0..<n]"

fun bytes_to_int_be :: "byte list \<Rightarrow> int" where
  "bytes_to_int_be [] = 0"
| "bytes_to_int_be (b # bs) = push_bit (8 * length bs) (uint b) + bytes_to_int_be bs"

definition pack_uint :: "endianness \<Rightarrow> nat \<Rightarrow> int \<Rightarrow> error + byte list" where
  "pack_uint order n v =
     (if v < 0 \<or> 2 ^ (8 * n) \<le> v then Inl StructError
      else Inr (case order of BIG_ENDIAN \<Rightarrow> int_to_bytes_be n v
                            | LITTLE_ENDIAN \<Rightarrow> rev (int_to_bytes_be n v)))"

definition unpack_uint :: "endianness \<Rightarrow> byte list \<Rightarrow> int" where
  "unpack_uint order bs =
     (case order of BIG_ENDIAN \<Rightarrow> bytes_to_int_be bs
                  | LITTLE_ENDIAN \<Rightarrow> bytes_to_int_be (rev bs))"

text \<open>\<^verbatim>\<open>bytes.ljust(n, b'\x00')\<close> and \<^verbatim>\<open>bytes.rjust(n, b'\x00')\<close>.\<close>

definition ljust :: "nat \<Rightarrow> byte list \<Rightarrow> byte list" where
  "ljust n bs = bs @ replicate (n - length bs) 0"

definition rjust :: "nat \<Rightarrow> byte list \<Rightarrow> byte list" where
  "rjust n bs = replicate (n - length bs) 0 @ bs"

subsection \<open>\<^verbatim>\<open>utilities.check_frame_id_and_format\<close>\<close>

text \<open>
  The frame format is an enumeration here, so the source's first test (a format string
  that is neither \<^verbatim>\<open>'standard'\<close> nor \<^verbatim>\<open>'extended'\<close>) has no counterpart; the frame id
  is an \<open>int\<close>, so the tests for \<^verbatim>\<open>None\<close> and for a failing \<^verbatim>\<open>int()\<close> have none either.
\<close>

definition check_frame_id_and_format :: "int \<Rightarrow> frame_format \<Rightarrow> error + unit" where
  "check_frame_id_and_format frame_id fmt =
     (if frame_id < 0 then Inl CanException
      else if fmt = CAN_FRAMEFORMAT_STANDARD \<and> frame_id > MAX_CAN_FRAME_ID_STANDARD
        then Inl CanException
      else if fmt = CAN_FRAMEFORMAT_EXTENDED \<and> frame_id > MAX_CAN_FRAME_ID_EXTENDED
        then Inl CanException
      else Inr ())"

subsection \<open>\<^verbatim>\<open>canframe.CanFrame\<close>: construction and the raw wire format\<close>

record CanFrame =
  frame_id :: int
  frame_data :: "byte list"
  frame_format :: frame_format

text \<open>The constructor: the setters of \<^verbatim>\<open>frame_format\<close>, \<^verbatim>\<open>frame_id\<close>, \<^verbatim>\<open>frame_data\<close> in turn.\<close>

definition CanFrame_init :: "int \<Rightarrow> byte list \<Rightarrow> frame_format \<Rightarrow> error + CanFrame" where
  "CanFrame_init fid fdata fmt =
     (case check_frame_id_and_format fid fmt of
        Inl e \<Rightarrow> Inl e
      | Inr _ \<Rightarrow>
          if length fdata > MAX_NUMBER_OF_CAN_DATA_BYTES then Inl CanException
          else Inr \<lparr>frame_id = fid, frame_data = fdata, frame_format = fmt\<rparr>)"

definition from_empty_bytes :: "int \<Rightarrow> int \<Rightarrow> frame_format \<Rightarrow> error + CanFrame" where
  "from_empty_bytes fid number_of_bytes fmt =
     (if number_of_bytes > int MAX_NUMBER_OF_CAN_DATA_BYTES \<or> number_of_bytes < 0
        then Inl CanException
      else CanFrame_init fid (replicate (nat number_of_bytes) 0) fmt)"

text \<open>
  \<^verbatim>\<open>FORMAT_CAN_RAWFRAME = "=IB3x8s"\<close>: the combined id in four bytes of the host's byte
  order (the parameter \<open>native\<close>), the dlc in one byte, three pad bytes, eight data bytes.
  The code \<^verbatim>\<open>8s\<close> cuts a longer byte string and pads a shorter one with zero bytes.
\<close>

definition pack_rawframe :: "endianness \<Rightarrow> int \<Rightarrow> int \<Rightarrow> byte list \<Rightarrow> error + byte list" where
  "pack_rawframe native first_part dlc data =
     (case pack_uint native 4 first_part of
        Inl e \<Rightarrow> Inl e
      | Inr idbytes \<Rightarrow>
          (case pack_uint native 1 dlc of
             Inl e \<Rightarrow> Inl e
           | Inr dlcbytes \<Rightarrow> Inr (idbytes @ dlcbytes @ [0, 0, 0] @ ljust 8 (take 8 data))))"

definition unpack_rawframe :: "endianness \<Rightarrow> byte list \<Rightarrow> error + (int \<times> nat \<times> byte list)" where
  "unpack_rawframe native rawframe =
     (if length rawframe \<noteq> 16 then Inl StructError
      else Inr (unpack_uint native (take 4 rawframe), unat (rawframe ! 4), drop 8 rawframe))"

definition get_rawframe :: "endianness \<Rightarrow> CanFrame \<Rightarrow> error + byte list" where
  "get_rawframe native f =
     (let dlc = int (length (frame_data f));
          framedata8bytes = ljust MAX_NUMBER_OF_CAN_DATA_BYTES (frame_data f);
          first_part = (if frame_format f = CAN_FRAMEFORMAT_EXTENDED
                        then frame_id f OR CAN_MASK_EXTENDED_FRAME_BIT else frame_id f)
      in pack_rawframe native first_part dlc framedata8bytes)"

definition from_rawframe :: "endianness \<Rightarrow> byte list \<Rightarrow> error + CanFrame" where
  "from_rawframe native rawframe =
     (case unpack_rawframe native rawframe of
        Inl _ \<Rightarrow> Inl CanException
      | Inr (first_part, dlc, framedata8bytes) \<Rightarrow>
          (let fid = first_part AND CAN_MASK_ID_ONLY;
               fmt = (if first_part AND CAN_MASK_EXTENDED_FRAME_BIT \<noteq> 0
                      then CAN_FRAMEFORMAT_EXTENDED else CAN_FRAMEFORMAT_STANDARD);
               framedata = take dlc framedata8bytes
           in CanFrame_init fid framedata fmt))"

text \<open>
  The frames the constructor accepts: the test of \<^verbatim>\<open>check_frame_id_and_format\<close> and the
  length test of the \<^verbatim>\<open>frame_data\<close> setter.
\<close>

definition valid_frame :: "CanFrame \<Rightarrow> bool" where
  "valid_frame f \<longleftrightarrow>
     0 \<le> frame_id f \<and>
     frame_id f \<le> (case frame_format f of
                     CAN_FRAMEFORMAT_STANDARD \<Rightarrow> MAX_CAN_FRAME_ID_STANDARD
                   | CAN_FRAMEFORMAT_EXTENDED \<Rightarrow> MAX_CAN_FRAME_ID_EXTENDED) \<and>
     length (frame_data f) \<le> 8"

subsection \<open>Python numbers\<close>

text \<open>
  A physical value is a Python \<^verbatim>\<open>int\<close> or a Python \<^verbatim>\<open>float\<close>. A float is an IEEE-754
  binary64 value: a finite one is the rational number it denotes (\<open>Fin 0\<close> is \<open>+0.0\<close>,
  \<open>NZero\<close> is \<open>-0.0\<close>), and every operation rounds its exact result to the nearest
  binary64 value, ties to the even significand. The payload of a NaN is not modelled.
\<close>

datatype pyfloat = Fin rat | NZero | PInf | NInf | NaN

datatype pynum = PyInt int | PyFloat pyfloat

text \<open>\<open>ilog2 x\<close> is \<open>\<lfloor>log\<^sub>2 x\<rfloor>\<close> for a positive rational \<open>x\<close>.\<close>

definition ilog2 :: "rat \<Rightarrow> int" where
  "ilog2 x = (if 1 \<le> x then bitlen \<lfloor>x\<rfloor> - 1 else - bitlen (\<lceil>1 / x\<rceil> - 1))"

definition round_half_even :: "rat \<Rightarrow> int" where
  "round_half_even x =
     (let f = \<lfloor>x\<rfloor>; d = x - of_int f
      in if d < 1 / 2 then f else if 1 / 2 < d then f + 1
         else if even f then f else f + 1)"

text \<open>
  Rounding of a real value to the binary format with \<open>p\<close> significant bits and exponents
  \<open>emin .. emax\<close>: a result beyond the largest finite value is an infinity, a result
  that underflows to zero keeps the sign.
\<close>

definition round_to_format :: "nat \<Rightarrow> int \<Rightarrow> int \<Rightarrow> rat \<Rightarrow> pyfloat" where
  "round_to_format p emin emax x =
     (if x = 0 then Fin 0
      else
        let e = max (ilog2 \<bar>x\<bar>) emin;
            q = 2 powi (e - int p + 1);
            y = of_int (round_half_even (x / q)) * q
        in if 2 powi (emax + 1) \<le> \<bar>y\<bar> then (if x < 0 then NInf else PInf)
           else if y = 0 then (if x < 0 then NZero else Fin 0)
           else Fin y)"

definition round_double :: "rat \<Rightarrow> pyfloat" where
  "round_double = round_to_format 53 (- 1022) 1023"

definition round_single :: "rat \<Rightarrow> pyfloat" where
  "round_single = round_to_format 24 (- 126) 127"

fun fval :: "pyfloat \<Rightarrow> rat" where
  "fval (Fin x) = x"
| "fval _ = 0"

fun is_finite :: "pyfloat \<Rightarrow> bool" where
  "is_finite (Fin x) = True"
| "is_finite NZero = True"
| "is_finite _ = False"

fun sign_bit :: "pyfloat \<Rightarrow> bool" where
  "sign_bit (Fin x) = (x < 0)"
| "sign_bit NZero = True"
| "sign_bit NInf = True"
| "sign_bit _ = False"

fun is_zero :: "pyfloat \<Rightarrow> bool" where
  "is_zero (Fin x) = (x = 0)"
| "is_zero NZero = True"
| "is_zero _ = False"

definition signed_zero :: "bool \<Rightarrow> pyfloat" where
  "signed_zero negative = (if negative then NZero else Fin 0)"

definition signed_inf :: "bool \<Rightarrow> pyfloat" where
  "signed_inf negative = (if negative then NInf else PInf)"

fun fneg :: "pyfloat \<Rightarrow> pyfloat" where
  "fneg (Fin x) = (if x = 0 then NZero else Fin (- x))"
| "fneg NZero = Fin 0"
| "fneg PInf = NInf"
| "fneg NInf = PInf"
| "fneg NaN = NaN"

definition fadd :: "pyfloat \<Rightarrow> pyfloat \<Rightarrow> pyfloat" where
  "fadd a b =
     (if a = NaN \<or> b = NaN then NaN
      else if \<not> is_finite a \<and> \<not> is_finite b then (if a = b then a else NaN)
      else if \<not> is_finite a then a
      else if \<not> is_finite b then b
      else if fval a + fval b = 0 then signed_zero (a = NZero \<and> b = NZero)
      else round_double (fval a + fval b))"

definition fsub :: "pyfloat \<Rightarrow> pyfloat \<Rightarrow> pyfloat" where
  "fsub a b = fadd a (fneg b)"

definition fmul :: "pyfloat \<Rightarrow> pyfloat \<Rightarrow> pyfloat" where
  "fmul a b =
     (if a = NaN \<or> b = NaN then NaN
      else if \<not> is_finite a \<or> \<not> is_finite b
        then (if is_zero a \<or> is_zero b then NaN else signed_inf (sign_bit a \<noteq> sign_bit b))
      else if fval a * fval b = 0 then signed_zero (sign_bit a \<noteq> sign_bit b)
      else round_double (fval a * fval b))"

text \<open>Python raises \<^verbatim>\<open>ZeroDivisionError\<close> for a float division by a zero.\<close>

definition fdiv :: "pyfloat \<Rightarrow> pyfloat \<Rightarrow> error + pyfloat" where
  "fdiv a b =
     (if is_zero b then Inl ZeroDivisionError
      else if a = NaN \<or> b = NaN then Inr NaN
      else if \<not> is_finite a then
        (if is_finite b then Inr (signed_inf (sign_bit a \<noteq> sign_bit b)) else Inr NaN)
      else if \<not> is_finite b then Inr (signed_zero (sign_bit a \<noteq> sign_bit b))
      else if fval a = 0 then Inr (signed_zero (sign_bit a \<noteq> sign_bit b))
      else Inr (round_double (fval a / fval b)))"

text \<open>
  \<^verbatim>\<open>float(x)\<close>: an \<^verbatim>\<open>int\<close> is rounded to the nearest float, and one too large for a finite
  float raises \<^verbatim>\<open>OverflowError\<close>.
\<close>

definition float_of_int :: "int \<Rightarrow> error + pyfloat" where
  "float_of_int n =
     (case round_double (of_int n) of
        PInf \<Rightarrow> Inl OverflowError
      | NInf \<Rightarrow> Inl OverflowError
      | r \<Rightarrow> Inr r)"

fun py_float :: "pynum \<Rightarrow> error + pyfloat" where
  "py_float (PyInt n) = float_of_int n"
| "py_float (PyFloat x) = Inr x"

text \<open>
  \<^verbatim>\<open>int(x)\<close> cuts a float towards zero; it raises \<^verbatim>\<open>ValueError\<close> for a NaN and
  \<^verbatim>\<open>OverflowError\<close> for an infinity. \<^verbatim>\<open>math.floor\<close> raises the same.
\<close>

definition truncate_rat :: "rat \<Rightarrow> int" where
  "truncate_rat x = (if 0 \<le> x then \<lfloor>x\<rfloor> else \<lceil>x\<rceil>)"

fun py_int :: "pynum \<Rightarrow> error + int" where
  "py_int (PyInt n) = Inr n"
| "py_int (PyFloat (Fin x)) = Inr (truncate_rat x)"
| "py_int (PyFloat NZero) = Inr 0"
| "py_int (PyFloat NaN) = Inl ValueError"
| "py_int (PyFloat _) = Inl OverflowError"

fun math_floor :: "pynum \<Rightarrow> error + int" where
  "math_floor (PyInt n) = Inr n"
| "math_floor (PyFloat (Fin x)) = Inr \<lfloor>x\<rfloor>"
| "math_floor (PyFloat NZero) = Inr 0"
| "math_floor (PyFloat NaN) = Inl ValueError"
| "math_floor (PyFloat _) = Inl OverflowError"

text \<open>
  Arithmetic on mixed operands: the \<^verbatim>\<open>int\<close> operand becomes a float first. The
  quotient \<^verbatim>\<open>/\<close> of two \<^verbatim>\<open>int\<close>s is the correctly rounded float.
\<close>

fun py_sub :: "pynum \<Rightarrow> pynum \<Rightarrow> error + pynum" where
  "py_sub (PyInt a) (PyInt b) = Inr (PyInt (a - b))"
| "py_sub a b =
     (case py_float a of Inl e \<Rightarrow> Inl e
      | Inr x \<Rightarrow> (case py_float b of Inl e \<Rightarrow> Inl e
          | Inr y \<Rightarrow> Inr (PyFloat (fsub x y))))"

fun py_add :: "pynum \<Rightarrow> pynum \<Rightarrow> error + pynum" where
  "py_add (PyInt a) (PyInt b) = Inr (PyInt (a + b))"
| "py_add a b =
     (case py_float a of Inl e \<Rightarrow> Inl e
      | Inr x \<Rightarrow> (case py_float b of Inl e \<Rightarrow> Inl e
          | Inr y \<Rightarrow> Inr (PyFloat (fadd x y))))"

fun py_mul :: "pynum \<Rightarrow> pynum \<Rightarrow> error + pynum" where
  "py_mul (PyInt a) (PyInt b) = Inr (PyInt (a * b))"
| "py_mul a b =
     (case py_float a of Inl e \<Rightarrow> Inl e
      | Inr x \<Rightarrow> (case py_float b of Inl e \<Rightarrow> Inl e
          | Inr y \<Rightarrow> Inr (PyFloat (fmul x y))))"

fun py_truediv :: "pynum \<Rightarrow> pynum \<Rightarrow> error + pynum" where
  "py_truediv (PyInt a) (PyInt b) =
     (if b = 0 then Inl ZeroDivisionError
      else if a = 0 then Inr (PyFloat (Fin 0))
      else (case round_double (of_int a / of_int b) of
              PInf \<Rightarrow> Inl OverflowError
            | NInf \<Rightarrow> Inl OverflowError
            | r \<Rightarrow> Inr (PyFloat r)))"
| "py_truediv a b =
     (case py_float a of Inl e \<Rightarrow> Inl e
      | Inr x \<Rightarrow> (case py_float b of Inl e \<Rightarrow> Inl e
          | Inr y \<Rightarrow> (case fdiv x y of Inl e \<Rightarrow> Inl e | Inr z \<Rightarrow> Inr (PyFloat z))))"

text \<open>
  Comparisons are exact, also between an \<^verbatim>\<open>int\<close> and a float; every comparison with a
  NaN is false. \<open>num_pos\<close> places a number on the extended line: \<open>None\<close> for a NaN,
  otherwise a rank (\<open>-1\<close>, \<open>0\<close>, \<open>1\<close> for minus infinity, finite, plus infinity) and the
  finite value.
\<close>

fun num_pos :: "pynum \<Rightarrow> (int \<times> rat) option" where
  "num_pos (PyInt n) = Some (0, of_int n)"
| "num_pos (PyFloat (Fin x)) = Some (0, x)"
| "num_pos (PyFloat NZero) = Some (0, 0)"
| "num_pos (PyFloat PInf) = Some (1, 0)"
| "num_pos (PyFloat NInf) = Some (- 1, 0)"
| "num_pos (PyFloat NaN) = None"

definition py_lt :: "pynum \<Rightarrow> pynum \<Rightarrow> bool" where
  "py_lt a b =
     (case (num_pos a, num_pos b) of
        (Some (ra, x), Some (rb, y)) \<Rightarrow> ra < rb \<or> (ra = rb \<and> x < y)
      | _ \<Rightarrow> False)"

definition py_gt :: "pynum \<Rightarrow> pynum \<Rightarrow> bool" where
  "py_gt a b = py_lt b a"

definition py_eq :: "pynum \<Rightarrow> pynum \<Rightarrow> bool" where
  "py_eq a b =
     (case (num_pos a, num_pos b) of
        (Some (ra, x), Some (rb, y)) \<Rightarrow> ra = rb \<and> x = y
      | _ \<Rightarrow> False)"

definition py_le :: "pynum \<Rightarrow> pynum \<Rightarrow> bool" where
  "py_le a b \<longleftrightarrow> py_lt a b \<or> py_eq a b"

text \<open>
  \<^verbatim>\<open>max(a, b)\<close> is \<open>b\<close> if \<^verbatim>\<open>b > a\<close> and \<open>a\<close> otherwise; \<^verbatim>\<open>min(a, b)\<close> is \<open>b\<close> if
  \<^verbatim>\<open>b < a\<close> and \<open>a\<close> otherwise.
\<close>

definition py_max :: "pynum \<Rightarrow> pynum \<Rightarrow> pynum" where
  "py_max a b = (if py_gt b a then b else a)"

definition py_min :: "pynum \<Rightarrow> pynum \<Rightarrow> pynum" where
  "py_min a b = (if py_lt b a then b else a)"

subsection \<open>The \<^verbatim>\<open>struct\<close> codes for floats\<close>

text \<open>
  The bit pattern of a float in the binary format with \<open>p\<close> significant bits, \<open>w\<close>
  exponent bits and smallest exponent \<open>emin\<close>, as an unsigned integer, and the float of a
  bit pattern. For binary64: \<open>p = 53\<close>, \<open>w = 11\<close>, \<open>emin = -1022\<close>; for binary32:
  \<open>p = 24\<close>, \<open>w = 8\<close>, \<open>emin = -126\<close>.
\<close>

definition encode_float :: "nat \<Rightarrow> nat \<Rightarrow> int \<Rightarrow> pyfloat \<Rightarrow> int" where
  "encode_float p w emin x =
     (let signbit = (if sign_bit x then push_bit (p - 1 + w) 1 else 0) in
      case x of
        NaN \<Rightarrow> push_bit (p - 1) (mask w) OR push_bit (p - 2) 1
      | PInf \<Rightarrow> push_bit (p - 1) (mask w)
      | NInf \<Rightarrow> signbit OR push_bit (p - 1) (mask w)
      | NZero \<Rightarrow> signbit
      | Fin r \<Rightarrow>
          if r = 0 then 0
          else
            let e = max (ilog2 \<bar>r\<bar>) emin;
                m = \<lfloor>\<bar>r\<bar> / (2 powi (e - int p + 1))\<rfloor>
            in if 2 ^ (p - 1) \<le> m
               then signbit OR push_bit (p - 1) (e - emin + 1) OR (m - 2 ^ (p - 1))
               else signbit OR m)"

definition decode_float :: "nat \<Rightarrow> nat \<Rightarrow> int \<Rightarrow> int \<Rightarrow> pyfloat" where
  "decode_float p w emin bits =
     (let negative = bit bits (p - 1 + w);
          ex = take_bit w (drop_bit (p - 1) bits);
          frac = take_bit (p - 1) bits
      in if ex = mask w then (if frac = 0 then signed_inf negative else NaN)
         else if ex = 0 then
           (if frac = 0 then signed_zero negative
            else Fin ((if negative then - 1 else 1) * of_int frac * 2 powi (emin - int p + 1)))
         else Fin ((if negative then - 1 else 1) * of_int (2 ^ (p - 1) + frac)
                    * 2 powi (ex - 1 + emin - int p + 1)))"

text \<open>
  \<^verbatim>\<open>struct.pack\<close> with the codes \<^verbatim>\<open>"<d"\<close>, \<^verbatim>\<open>">d"\<close> (eight bytes) and \<^verbatim>\<open>">f"\<close> (four
  bytes). The code \<^verbatim>\<open>f\<close> rounds to binary32 and raises \<^verbatim>\<open>OverflowError\<close> for a finite
  float that is too large for it.
\<close>

definition pack_double :: "endianness \<Rightarrow> pyfloat \<Rightarrow> byte list" where
  "pack_double order x =
     (case order of BIG_ENDIAN \<Rightarrow> int_to_bytes_be 8 (encode_float 53 11 (- 1022) x)
                  | LITTLE_ENDIAN \<Rightarrow> rev (int_to_bytes_be 8 (encode_float 53 11 (- 1022) x)))"

definition unpack_double :: "endianness \<Rightarrow> byte list \<Rightarrow> error + pyfloat" where
  "unpack_double order bs =
     (if length bs \<noteq> 8 then Inl StructError
      else Inr (decode_float 53 11 (- 1022) (unpack_uint order bs)))"

definition to_single :: "pyfloat \<Rightarrow> error + pyfloat" where
  "to_single x =
     (case x of
        Fin r \<Rightarrow> (case round_single r of
                    PInf \<Rightarrow> Inl OverflowError
                  | NInf \<Rightarrow> Inl OverflowError
                  | s \<Rightarrow> Inr s)
      | _ \<Rightarrow> Inr x)"

definition pack_single_be :: "pyfloat \<Rightarrow> error + byte list" where
  "pack_single_be x =
     (case to_single x of
        Inl e \<Rightarrow> Inl e
      | Inr s \<Rightarrow> Inr (int_to_bytes_be 4 (encode_float 24 8 (- 126) s)))"

definition unpack_single_be :: "byte list \<Rightarrow> error + pyfloat" where
  "unpack_single_be bs =
     (if length bs \<noteq> 4 then Inl StructError
      else Inr (decode_float 24 8 (- 126) (bytes_to_int_be bs)))"

subsection \<open>The interval encoding as the specification words it\<close>

text \<open>
  The specification's sentence on intervals, over exact numbers:
  \<open>seconds = floor(ms/1000)\<close> and \<open>useconds = round((ms/1000 - seconds) * 1e6)\<close>.
\<close>

definition interval_as_specified :: "rat \<Rightarrow> int \<times> int" where
  "interval_as_specified ms =
     (let seconds = \<lfloor>ms / 1000\<rfloor>
      in (seconds, round ((ms / 1000 - of_int seconds) * 1000000)))"

subsection \<open>Sequencing, indexing and slicing\<close>

text \<open>An exception ends the computation: \<open>and_then m f\<close> runs \<open>f\<close> on the result of \<open>m\<close>.\<close>

definition and_then :: "error + 'a \<Rightarrow> ('a \<Rightarrow> error + 'b) \<Rightarrow> error + 'b" where
  "and_then m f = (case m of Inl e \<Rightarrow> Inl e | Inr x \<Rightarrow> f x)"

text \<open>
  \<^verbatim>\<open>xs[i]\<close> and \<^verbatim>\<open>xs[i] = v\<close>: a negative index counts from the end, an index outside
  the sequence raises \<^verbatim>\<open>IndexError\<close>. \<^verbatim>\<open>xs[0:n]\<close> never raises.
\<close>

definition py_index :: "nat \<Rightarrow> int \<Rightarrow> nat option" where
  "py_index len i =
     (if 0 \<le> i \<and> i < int len then Some (nat i)
      else if i < 0 \<and> - int len \<le> i then Some (nat (int len + i))
      else None)"

definition py_getitem :: "'a list \<Rightarrow> int \<Rightarrow> error + 'a" where
  "py_getitem xs i =
     (case py_index (length xs) i of None \<Rightarrow> Inl IndexError | Some j \<Rightarrow> Inr (xs ! j))"

definition py_setitem :: "'a list \<Rightarrow> int \<Rightarrow> 'a \<Rightarrow> error + 'a list" where
  "py_setitem xs i v =
     (case py_index (length xs) i of None \<Rightarrow> Inl IndexError | Some j \<Rightarrow> Inr (xs[j := v]))"

definition py_slice_to :: "'a list \<Rightarrow> int \<Rightarrow> 'a list" where
  "py_slice_to xs n = (if 0 \<le> n then take (nat n) xs else take (nat (int (length xs) + n)) xs)"

text \<open>\<^verbatim>\<open>range(a, b)\<close> and \<^verbatim>\<open>range(n)\<close>.\<close>

definition py_range :: "int \<Rightarrow> int \<Rightarrow> int list" where
  "py_range a b = [a..b - 1]"

subsection \<open>\<^verbatim>\<open>utilities.py\<close>\<close>

definition calculate_backward_bitnumber :: "int \<Rightarrow> error + int" where
  "calculate_backward_bitnumber normal_bitnumber =
     (if normal_bitnumber < 0 then Inl CanException
      else if normal_bitnumber > BITS_IN_FULL_DATA - 1 then Inl CanException
      else
        let bytenumber = normal_bitnumber div BITS_PER_BYTE;
            offset_in_the_byte = normal_bitnumber - bytenumber * BITS_PER_BYTE;
            basevalue_per_byte =
              (int MAX_NUMBER_OF_CAN_DATA_BYTES - 1 - bytenumber) * BITS_PER_BYTE
        in Inr (basevalue_per_byte + offset_in_the_byte))"

definition calculate_normal_bitnumber :: "int \<Rightarrow> error + int" where
  "calculate_normal_bitnumber backward_bitnumber =
     (if backward_bitnumber < 0 then Inl CanException
      else if backward_bitnumber > BITS_IN_FULL_DATA - 1 then Inl CanException
      else
        let bytenumber =
              int MAX_NUMBER_OF_CAN_DATA_BYTES - 1 - backward_bitnumber div BITS_PER_BYTE;
            offset_in_the_byte = backward_bitnumber
              - (int MAX_NUMBER_OF_CAN_DATA_BYTES - 1 - bytenumber) * BITS_PER_BYTE
        in Inr (offset_in_the_byte + bytenumber * BITS_PER_BYTE))"

text \<open>\<^verbatim>\<open>FORMAT_DATA_LONGLONG = ">Q"\<close>: eight bytes, most significant first.\<close>

definition can_bytes_to_int :: "byte list \<Rightarrow> error + int" where
  "can_bytes_to_int input_bytes =
     (if \<not> length input_bytes \<le> MAX_NUMBER_OF_CAN_DATA_BYTES then Inl AssertionError
      else Inr (unpack_uint BIG_ENDIAN (ljust MAX_NUMBER_OF_CAN_DATA_BYTES input_bytes)))"

definition int_to_can_bytes :: "int \<Rightarrow> int \<Rightarrow> error + byte list" where
  "int_to_can_bytes dlc dataint =
     (if \<not> dlc \<le> int MAX_NUMBER_OF_CAN_DATA_BYTES then Inl AssertionError
      else and_then (pack_uint BIG_ENDIAN 8 dataint)
             (\<lambda>framedata8bytes. Inr (py_slice_to framedata8bytes dlc)))"

text \<open>
  \<^verbatim>\<open>twos_complement\<close> and \<^verbatim>\<open>from_twos_complement\<close>. For \<open>bits \<le> 0\<close> Python computes
  \<^verbatim>\<open>2 ** (bits - 1)\<close> as a float in \<open>(0, 1)\<close>, which puts every \<^verbatim>\<open>int\<close> outside the range
  that \<^verbatim>\<open>twos_complement\<close> tests; \<^verbatim>\<open>from_twos_complement\<close> accepts only \<open>0\<close> for
  \<open>bits = 0\<close> and then returns \<open>0 - 2 ** 0\<close>.
\<close>

definition twos_complement :: "int \<Rightarrow> int \<Rightarrow> error + int" where
  "twos_complement value bits =
     (if bits \<le> 0 then Inl CanException
      else
        let maxvalue = 2 ^ nat (bits - 1) - 1;
            minvalue = - (2 ^ nat (bits - 1))
        in if value > maxvalue \<or> value < minvalue then Inl CanException
           else if value \<ge> 0 then Inr value
           else Inr (value + 2 ^ nat bits))"

definition from_twos_complement :: "int \<Rightarrow> int \<Rightarrow> error + int" where
  "from_twos_complement value bits =
     (if bits < 0 then Inl CanException
      else
        let maxvalue = 2 ^ nat bits - 1
        in if value < 0 \<or> value > maxvalue then Inl CanException
           else if bits = 0 then Inr (value - 1)
           else
             let max_positive_value = 2 ^ nat (bits - 1) - 1
             in if value \<le> max_positive_value then Inr value
                else Inr (value - 2 ^ nat bits))"

definition MICROSECONDS_PER_SECOND :: int where
  "MICROSECONDS_PER_SECOND = 1000000"

definition MILLISECONDS_PER_SECOND :: int where
  "MILLISECONDS_PER_SECOND = 1000"

definition split_seconds_to_full_and_part :: "pynum \<Rightarrow> error + (int \<times> int)" where
  "split_seconds_to_full_and_part seconds_float =
     (if py_lt seconds_float (PyInt 0) then Inl CanException
      else and_then (math_floor seconds_float) (\<lambda>seconds_full.
           and_then (py_sub seconds_float (PyInt seconds_full)) (\<lambda>part.
           and_then (py_mul part (PyInt MICROSECONDS_PER_SECOND)) (\<lambda>scaled.
           and_then (py_int scaled) (\<lambda>useconds.
           Inr (seconds_full, useconds))))))"

text \<open>
  The two loops that move the bytes of a little-endian signal: for each \<open>i\<close> of the range,
  \<^verbatim>\<open>reshuffled_bytes[destination i] = source[origin i]\<close>.
\<close>

fun reshuffle :: "(int \<Rightarrow> int) \<Rightarrow> (int \<Rightarrow> int) \<Rightarrow> byte list \<Rightarrow> int list \<Rightarrow> byte list
    \<Rightarrow> error + byte list" where
  "reshuffle origin destination source [] reshuffled_bytes = Inr reshuffled_bytes"
| "reshuffle origin destination source (i # rest) reshuffled_bytes =
     and_then (py_getitem source (origin i)) (\<lambda>b.
     and_then (py_setitem reshuffled_bytes (destination i) b) (\<lambda>updated.
     reshuffle origin destination source rest updated))"

text \<open>\<^verbatim>\<open>(1 << numberofbits) - 1\<close>; a negative shift count raises \<^verbatim>\<open>ValueError\<close>.\<close>

definition ones_mask :: "int \<Rightarrow> error + int" where
  "ones_mask numberofbits =
     (if numberofbits < 0 then Inl ValueError else Inr (push_bit (nat numberofbits) 1 - 1))"

definition get_busvalue_from_bytes :: "byte list \<Rightarrow> endianness \<Rightarrow> int \<Rightarrow> int \<Rightarrow> error + int" where
  "get_busvalue_from_bytes input_bytes endianness numberofbits startbit =
     and_then
       (if endianness = BIG_ENDIAN then
          and_then (calculate_backward_bitnumber startbit) (\<lambda>extract_shifts.
          and_then (can_bytes_to_int input_bytes) (\<lambda>dataint.
          Inr (drop_bit (nat extract_shifts) dataint)))
        else
          let bytenumber_for_startbit = startbit div BITS_PER_BYTE in
          if \<not> bytenumber_for_startbit < int MAX_NUMBER_OF_CAN_DATA_BYTES then Inl AssertionError
          else
            let stopbit_little = startbit + numberofbits - 1;
                bytenumber_for_stopbit_little = stopbit_little div BITS_PER_BYTE in
            if \<not> bytenumber_for_stopbit_little < int MAX_NUMBER_OF_CAN_DATA_BYTES
            then Inl AssertionError
            else
              let number_of_bytes_to_shuffle =
                    bytenumber_for_stopbit_little - bytenumber_for_startbit + 1;
                  number_of_steps_to_LSBit_in_byte = startbit mod BITS_PER_BYTE
              in and_then
                   (reshuffle (\<lambda>i. bytenumber_for_startbit + i)
                      (\<lambda>i. int MAX_NUMBER_OF_CAN_DATA_BYTES - 1 - i)
                      input_bytes (py_range 0 number_of_bytes_to_shuffle)
                      (replicate MAX_NUMBER_OF_CAN_DATA_BYTES 0))
                   (\<lambda>reshuffled_bytes.
                 and_then (can_bytes_to_int reshuffled_bytes) (\<lambda>temporary_value.
                 Inr (drop_bit (nat number_of_steps_to_LSBit_in_byte) temporary_value))))
       (\<lambda>shifted. and_then (ones_mask numberofbits) (\<lambda>mask. Inr (shifted AND mask)))"

definition get_shiftedvalue_from_busvalue :: "int \<Rightarrow> endianness \<Rightarrow> int \<Rightarrow> int \<Rightarrow> error + int" where
  "get_shiftedvalue_from_busvalue input_value endianness numberofbits startbit =
     and_then (calculate_backward_bitnumber startbit) (\<lambda>encode_shifts.
       if endianness = BIG_ENDIAN then Inr (push_bit (nat encode_shifts) input_value)
       else
         let number_of_steps_to_LSBit_in_byte = encode_shifts mod BITS_PER_BYTE;
             bytenumber_for_startbit = startbit div BITS_PER_BYTE;
             stopbit_little = startbit + numberofbits - 1;
             bytenumber_for_stopbit_little = stopbit_little div BITS_PER_BYTE in
         if \<not> bytenumber_for_stopbit_little < int MAX_NUMBER_OF_CAN_DATA_BYTES
         then Inl AssertionError
         else
           let number_of_bytes_to_shuffle =
                 bytenumber_for_stopbit_little - bytenumber_for_startbit + 1;
               partially_shifted_value =
                 push_bit (nat number_of_steps_to_LSBit_in_byte) input_value
           in and_then
                (int_to_can_bytes (int MAX_NUMBER_OF_CAN_DATA_BYTES) partially_shifted_value)
                (\<lambda>partially_shifted_bytes.
              and_then
                (reshuffle (\<lambda>i. int MAX_NUMBER_OF_CAN_DATA_BYTES - 1 - i)
                   (\<lambda>i. bytenumber_for_startbit + i)
                   partially_shifted_bytes (py_range 0 number_of_bytes_to_shuffle)
                   (replicate MAX_NUMBER_OF_CAN_DATA_BYTES 0))
                (\<lambda>reshuffled_bytes. can_bytes_to_int reshuffled_bytes)))"

subsection \<open>\<^verbatim>\<open>cansignal.CanSignalDefinition\<close>\<close>

datatype signaltype =
    CAN_SIGNALTYPE_UNSIGNED
  | CAN_SIGNALTYPE_SIGNED
  | CAN_SIGNALTYPE_SINGLE
  | CAN_SIGNALTYPE_DOUBLE

definition BITS_IN_SINGLE_PRECISION_FLOAT :: int where
  "BITS_IN_SINGLE_PRECISION_FLOAT = 32"

definition BITS_IN_DOUBLE_PRECISION_FLOAT :: int where
  "BITS_IN_DOUBLE_PRECISION_FLOAT = 64"

text \<open>The float literals \<^verbatim>\<open>3.4e38\<close> and \<^verbatim>\<open>1.7e308\<close> and their negations.\<close>

definition MAX_VALUE_FLOAT_SINGLE :: pyfloat where
  "MAX_VALUE_FLOAT_SINGLE = round_double (34 * 10 ^ 37)"

definition MIN_VALUE_FLOAT_SINGLE :: pyfloat where
  "MIN_VALUE_FLOAT_SINGLE = fneg (round_double (34 * 10 ^ 37))"

definition MAX_VALUE_FLOAT_DOUBLE :: pyfloat where
  "MAX_VALUE_FLOAT_DOUBLE = round_double (17 * 10 ^ 307)"

definition MIN_VALUE_FLOAT_DOUBLE :: pyfloat where
  "MIN_VALUE_FLOAT_DOUBLE = fneg (round_double (17 * 10 ^ 307))"

record CanSignalDefinition =
  signalname :: string
  startbit :: int
  numberofbits :: int
  scalingfactor :: pyfloat
  valueoffset :: pyfloat
  defaultvalue :: "pynum option"
  unit :: string
  comment :: string
  minvalue :: "pynum option"
  maxvalue :: "pynum option"
  endianness :: endianness
  signaltype :: signaltype

definition get_maximum_possible_value :: "CanSignalDefinition \<Rightarrow> error + pynum" where
  "get_maximum_possible_value S =
     (let max_unpacked_value =
            (if signaltype S = CAN_SIGNALTYPE_UNSIGNED then PyInt (2 ^ nat (numberofbits S) - 1)
             else if signaltype S = CAN_SIGNALTYPE_SIGNED
               then PyInt (2 ^ nat (numberofbits S - 1) - 1)
             else if signaltype S = CAN_SIGNALTYPE_SINGLE then PyFloat MAX_VALUE_FLOAT_SINGLE
             else PyFloat MAX_VALUE_FLOAT_DOUBLE)
      in and_then (py_mul max_unpacked_value (PyFloat (scalingfactor S)))
           (\<lambda>scaled. py_add scaled (PyFloat (valueoffset S))))"

definition get_minimum_possible_value :: "CanSignalDefinition \<Rightarrow> error + pynum" where
  "get_minimum_possible_value S =
     (let min_unpacked_value =
            (if signaltype S = CAN_SIGNALTYPE_UNSIGNED then PyInt 0
             else if signaltype S = CAN_SIGNALTYPE_SIGNED
               then PyInt (- (2 ^ nat (numberofbits S - 1)))
             else if signaltype S = CAN_SIGNALTYPE_SINGLE then PyFloat MIN_VALUE_FLOAT_SINGLE
             else PyFloat MIN_VALUE_FLOAT_DOUBLE)
      in and_then (py_mul min_unpacked_value (PyFloat (scalingfactor S)))
           (\<lambda>scaled. py_add scaled (PyFloat (valueoffset S))))"

definition get_minimum_dlc :: "CanSignalDefinition \<Rightarrow> int" where
  "get_minimum_dlc S =
     (let bytenumber =
            (if endianness S = BIG_ENDIAN then startbit S div BITS_PER_BYTE
             else (startbit S + numberofbits S - 1) div BITS_PER_BYTE)
      in bytenumber + 1)"

definition check_signal_value_range :: "CanSignalDefinition \<Rightarrow> pynum option \<Rightarrow> error + unit" where
  "check_signal_value_range S value =
     (case value of
        None \<Rightarrow> Inr ()
      | Some v \<Rightarrow>
          and_then (py_float v) (\<lambda>x.
          and_then (get_minimum_possible_value S) (\<lambda>lower_limit.
          and_then (get_maximum_possible_value S) (\<lambda>upper_limit.
            if py_lt (PyFloat x) lower_limit \<or> py_gt (PyFloat x) upper_limit
            then Inl CanException else Inr ()))))"

text \<open>The test of the setter of \<^verbatim>\<open>numberofbits\<close>, which reads the attributes set before it.\<close>

definition check_numberofbits :: "endianness \<Rightarrow> signaltype \<Rightarrow> int \<Rightarrow> int \<Rightarrow> error + unit" where
  "check_numberofbits endianness_arg signaltype_arg startbit_arg value =
     (if value \<le> 0 \<or> value > BITS_IN_FULL_DATA then Inl CanException
      else
        and_then
          (if endianness_arg = LITTLE_ENDIAN then
             (let stopbit = startbit_arg + value - 1
              in if stopbit \<ge> BITS_IN_FULL_DATA then Inl CanException else Inr ())
           else
             and_then (calculate_backward_bitnumber startbit_arg) (\<lambda>startbit_backwards.
               let stopbit_backwards = startbit_backwards + value - 1
               in if stopbit_backwards \<ge> BITS_IN_FULL_DATA then Inl CanException else Inr ()))
          (\<lambda>_. if signaltype_arg = CAN_SIGNALTYPE_SINGLE then
                 (if value \<noteq> BITS_IN_SINGLE_PRECISION_FLOAT then Inl CanException else Inr ())
               else if signaltype_arg = CAN_SIGNALTYPE_DOUBLE then
                 (if value \<noteq> BITS_IN_DOUBLE_PRECISION_FLOAT then Inl CanException else Inr ())
               else Inr ()))"

text \<open>
  The constructor sets \<^verbatim>\<open>endianness\<close>, \<^verbatim>\<open>signaltype\<close>, \<^verbatim>\<open>startbit\<close>, \<^verbatim>\<open>numberofbits\<close>,
  \<^verbatim>\<open>scalingfactor\<close>, \<^verbatim>\<open>valueoffset\<close>, \<^verbatim>\<open>minvalue\<close>, \<^verbatim>\<open>maxvalue\<close> and \<^verbatim>\<open>defaultvalue\<close> in
  this order, each through its setter. The endianness and the signal type are
  enumerations here, and the numbers are numbers, so the setters' tests of an unknown
  string and of a failing conversion have no counterpart. A default value that is not
  given is the argument \<^verbatim>\<open>valueoffset\<close>.
\<close>

definition CanSignalDefinition_init ::
  "string \<Rightarrow> int \<Rightarrow> int \<Rightarrow> pynum \<Rightarrow> pynum \<Rightarrow> pynum option \<Rightarrow> string \<Rightarrow> string
     \<Rightarrow> pynum option \<Rightarrow> pynum option \<Rightarrow> endianness \<Rightarrow> signaltype
     \<Rightarrow> error + CanSignalDefinition" where
  "CanSignalDefinition_init signalname_arg startbit_arg numberofbits_arg scalingfactor_arg
       valueoffset_arg defaultvalue_arg unit_arg comment_arg minvalue_arg maxvalue_arg
       endianness_arg signaltype_arg =
     (if startbit_arg < 0 \<or> startbit_arg > BITS_IN_FULL_DATA - 1 then Inl CanException
      else
        and_then (check_numberofbits endianness_arg signaltype_arg startbit_arg numberofbits_arg)
          (\<lambda>_.
        and_then (py_float scalingfactor_arg) (\<lambda>sf.
          if py_le (PyFloat sf) (PyInt 0) then Inl CanException
          else
            and_then (py_float valueoffset_arg) (\<lambda>vo.
              let S = \<lparr>signalname = signalname_arg, startbit = startbit_arg,
                        numberofbits = numberofbits_arg, scalingfactor = sf, valueoffset = vo,
                        defaultvalue = None, unit = unit_arg, comment = comment_arg,
                        minvalue = None, maxvalue = None,
                        endianness = endianness_arg, signaltype = signaltype_arg\<rparr>;
                  d = (case defaultvalue_arg of None \<Rightarrow> valueoffset_arg | Some v \<Rightarrow> v)
              in and_then (check_signal_value_range S minvalue_arg) (\<lambda>_.
                 and_then (check_signal_value_range S maxvalue_arg) (\<lambda>_.
                 and_then (check_signal_value_range S (Some d)) (\<lambda>_.
                 Inr (S\<lparr>minvalue := minvalue_arg, maxvalue := maxvalue_arg,
                        defaultvalue := Some d\<rparr>))))))))"

text \<open>
  \<^verbatim>\<open>_get_overview_string\<close>: a list of 64 characters, one for each bit of the payload from
  the most significant bit of byte 0 on, with a letter where the signal has a bit.
\<close>

definition SYMBOL_LEAST_SIGNIFICANT_BIT :: char where
  "SYMBOL_LEAST_SIGNIFICANT_BIT = CHR ''L''"

definition SYMBOL_MOST_SIGNIFICANT_BIT :: char where
  "SYMBOL_MOST_SIGNIFICANT_BIT = CHR ''M''"

definition SYMBOL_OTHER_VALID_BIT :: char where
  "SYMBOL_OTHER_VALID_BIT = CHR ''X''"

text \<open>
  The loops that mark the inner bits: for each \<open>i\<close> of the range,
  \<^verbatim>\<open>tempstringlist[position i] = SYMBOL_OTHER_VALID_BIT\<close>.
\<close>

fun mark_other_bits :: "(int \<Rightarrow> error + int) \<Rightarrow> int list \<Rightarrow> string \<Rightarrow> error + string" where
  "mark_other_bits position [] tempstringlist = Inr tempstringlist"
| "mark_other_bits position (i # rest) tempstringlist =
     and_then (position i) (\<lambda>pos.
     and_then (py_setitem tempstringlist pos SYMBOL_OTHER_VALID_BIT) (\<lambda>updated.
     mark_other_bits position rest updated))"

definition get_overview_string :: "CanSignalDefinition \<Rightarrow> error + (string \<times> int)" where
  "get_overview_string S =
     (let tempstringlist = replicate (nat BITS_IN_FULL_DATA) (CHR '' '') in
      if endianness S = LITTLE_ENDIAN then
        (let stopbit = startbit S + numberofbits S - 1 in
         and_then (calculate_backward_bitnumber stopbit) (\<lambda>stop_backward.
         and_then (py_setitem tempstringlist (BITS_IN_FULL_DATA - 1 - stop_backward)
                     SYMBOL_MOST_SIGNIFICANT_BIT) (\<lambda>list1.
         and_then (calculate_backward_bitnumber (startbit S)) (\<lambda>start_backward.
         and_then (py_setitem list1 (BITS_IN_FULL_DATA - 1 - start_backward)
                     SYMBOL_LEAST_SIGNIFICANT_BIT) (\<lambda>list2.
         and_then
           (if numberofbits S > 2 then
              mark_other_bits
                (\<lambda>i. and_then (calculate_backward_bitnumber i)
                        (\<lambda>b. Inr (BITS_IN_FULL_DATA - 1 - b)))
                (py_range (startbit S + 1) stopbit) list2
            else Inr list2)
           (\<lambda>list3. Inr (list3, stopbit)))))))
      else
        and_then (calculate_backward_bitnumber (startbit S)) (\<lambda>startbit_backward.
          let stopbit_backward = startbit_backward + numberofbits S - 1 in
          and_then (calculate_normal_bitnumber stopbit_backward) (\<lambda>stopbit.
          and_then (py_setitem tempstringlist (BITS_IN_FULL_DATA - 1 - stopbit_backward)
                      SYMBOL_MOST_SIGNIFICANT_BIT) (\<lambda>list1.
          and_then (py_setitem list1 (BITS_IN_FULL_DATA - 1 - startbit_backward)
                      SYMBOL_LEAST_SIGNIFICANT_BIT) (\<lambda>list2.
          and_then
            (if numberofbits S > 2 then
               mark_other_bits (\<lambda>bitnumber_backward. Inr (BITS_IN_FULL_DATA - 1 - bitnumber_backward))
                 (py_range (startbit_backward + 1) stopbit_backward) list2
             else Inr list2)
            (\<lambda>list3. Inr (list3, stopbit)))))))"

subsection \<open>\<^verbatim>\<open>CanFrame.get_signalvalue\<close> and \<^verbatim>\<open>CanFrame.set_signalvalue\<close>\<close>

text \<open>The block \<^verbatim>\<open># Limit to minvalue and maxvalue\<close> of both methods.\<close>

definition limit_to_min_max :: "CanSignalDefinition \<Rightarrow> pynum \<Rightarrow> pynum" where
  "limit_to_min_max S physical_value =
     (let v1 = (case minvalue S of None \<Rightarrow> physical_value
                | Some lo \<Rightarrow> py_max lo physical_value)
      in case maxvalue S of None \<Rightarrow> v1 | Some hi \<Rightarrow> py_min hi v1)"

definition get_signalvalue :: "CanFrame \<Rightarrow> CanSignalDefinition \<Rightarrow> error + pynum" where
  "get_signalvalue f S =
     and_then
       (if signaltype S = CAN_SIGNALTYPE_DOUBLE then
          and_then (unpack_double (endianness S) (frame_data f)) (\<lambda>x. Inr (PyFloat x))
        else
          and_then (get_busvalue_from_bytes (frame_data f) (endianness S)
                      (numberofbits S) (startbit S)) (\<lambda>bus_value.
            if signaltype S = CAN_SIGNALTYPE_UNSIGNED then Inr (PyInt bus_value)
            else if signaltype S = CAN_SIGNALTYPE_SIGNED then
              and_then (from_twos_complement bus_value (numberofbits S)) (\<lambda>v. Inr (PyInt v))
            else
              and_then (pack_uint BIG_ENDIAN 4 bus_value) (\<lambda>useful_bytes.
              and_then (unpack_single_be useful_bytes) (\<lambda>x. Inr (PyFloat x)))))
       (\<lambda>unpacked_value.
     and_then (py_mul unpacked_value (PyFloat (scalingfactor S))) (\<lambda>scaled.
     and_then (py_add scaled (PyFloat (valueoffset S))) (\<lambda>physical_value.
     Inr (limit_to_min_max S physical_value))))"

text \<open>
  The last part of \<^verbatim>\<open>set_signalvalue\<close>, from the two assertions on the bus value to the
  assignment of the new payload.
\<close>

definition write_bus_value :: "CanFrame \<Rightarrow> CanSignalDefinition \<Rightarrow> int \<Rightarrow> error + CanFrame" where
  "write_bus_value f S bus_value =
     (if numberofbits S < 0 \<or> \<not> bus_value \<le> 2 ^ nat (numberofbits S) - 1 then Inl AssertionError
      else if \<not> bus_value \<ge> 0 then Inl AssertionError
      else
        and_then (get_shiftedvalue_from_busvalue bus_value (endianness S)
                    (numberofbits S) (startbit S)) (\<lambda>bitvalues.
        and_then (ones_mask (numberofbits S)) (\<lambda>raw_mask.
        and_then (get_shiftedvalue_from_busvalue raw_mask (endianness S)
                    (numberofbits S) (startbit S)) (\<lambda>mask.
        and_then (can_bytes_to_int (frame_data f)) (\<lambda>dataint.
          let dlc = int (length (frame_data f));
              dataint' = (dataint AND NOT mask) OR bitvalues
          in and_then (int_to_can_bytes dlc dataint') (\<lambda>new_data.
               if length new_data > MAX_NUMBER_OF_CAN_DATA_BYTES then Inl CanException
               else Inr (f\<lparr>frame_data := new_data\<rparr>)))))))"

text \<open>
  The part of \<^verbatim>\<open>set_signalvalue\<close> after the limiting, from the comment
  \<^verbatim>\<open># Scale according to valueoffset and scalingfactor\<close> on.
\<close>

definition write_physical_value :: "CanFrame \<Rightarrow> CanSignalDefinition \<Rightarrow> pynum \<Rightarrow> error + CanFrame" where
  "write_physical_value f S limited =
     and_then (py_sub limited (PyFloat (valueoffset S))) (\<lambda>difference.
     and_then (py_truediv difference (PyFloat (scalingfactor S))) (\<lambda>quotient.
     and_then (py_float quotient) (\<lambda>scaled_value.
       if signaltype S = CAN_SIGNALTYPE_DOUBLE then
         Inr (f\<lparr>frame_data := pack_double (endianness S) scaled_value\<rparr>)
       else
         and_then
           (if signaltype S = CAN_SIGNALTYPE_UNSIGNED
              then py_int (PyFloat scaled_value)
            else if signaltype S = CAN_SIGNALTYPE_SIGNED then
              and_then (py_int (PyFloat scaled_value))
                (\<lambda>i. twos_complement i (numberofbits S))
            else
              and_then (pack_single_be scaled_value) (\<lambda>packed.
                can_bytes_to_int (rjust MAX_NUMBER_OF_CAN_DATA_BYTES packed)))
           (\<lambda>bus_value. write_bus_value f S bus_value))))"

definition set_signalvalue ::
  "CanFrame \<Rightarrow> CanSignalDefinition \<Rightarrow> pynum option \<Rightarrow> error + CanFrame" where
  "set_signalvalue f S physical_value_arg =
     (if get_minimum_dlc S > int (length (frame_data f)) then Inl CanException
      else
        case (case physical_value_arg of None \<Rightarrow> defaultvalue S | Some v \<Rightarrow> Some v) of
          None \<Rightarrow> Inl TypeError
        | Some physical_value \<Rightarrow>
            and_then (get_minimum_possible_value S) (\<lambda>lower.
            and_then (if py_lt physical_value lower then Inr True
                      else and_then (get_maximum_possible_value S)
                             (\<lambda>upper. Inr (py_gt physical_value upper))) (\<lambda>out_of_range.
              if out_of_range then
                and_then (get_minimum_possible_value S) (\<lambda>_.
                and_then (get_maximum_possible_value S) (\<lambda>_. Inl CanException))
              else write_physical_value f S (limit_to_min_max S physical_value))))"

subsection \<open>\<^verbatim>\<open>canframe_definition.CanFrameDefinition\<close>\<close>

record CanFrameDefinition =
  def_frame_id :: int
  def_frame_format :: frame_format
  name :: string
  dlc :: int
  cycletime :: "int option"
  throttle_time :: "int option"
  producer_ids :: "string set"
  signaldefinitions :: "CanSignalDefinition list"
  receive_on_change_only :: bool

text \<open>
  The inner loop of \<^verbatim>\<open>get_signal_mask\<close>, over \<^verbatim>\<open>enumerate(overviewstring)\<close>, and the outer
  loop over the signal definitions.
\<close>

fun mask_of_overview :: "string \<Rightarrow> nat \<Rightarrow> int \<Rightarrow> int" where
  "mask_of_overview [] pos output_int = output_int"
| "mask_of_overview (c # rest) pos output_int =
     mask_of_overview rest (Suc pos)
       (if c \<noteq> CHR '' '' then output_int OR 2 ^ (nat BITS_IN_FULL_DATA - 1 - pos)
        else output_int)"

fun signal_mask_loop :: "CanSignalDefinition list \<Rightarrow> int \<Rightarrow> error + int" where
  "signal_mask_loop [] output_int = Inr output_int"
| "signal_mask_loop (signaldef # rest) output_int =
     and_then (get_overview_string signaldef) (\<lambda>(overviewstring, _).
       signal_mask_loop rest (mask_of_overview overviewstring 0 output_int))"

definition get_signal_mask :: "CanFrameDefinition \<Rightarrow> error + byte list" where
  "get_signal_mask fd =
     and_then (signal_mask_loop (signaldefinitions fd) 0)
       (int_to_can_bytes (int MAX_NUMBER_OF_CAN_DATA_BYTES))"

definition is_outbound :: "CanFrameDefinition \<Rightarrow> string set \<Rightarrow> bool" where
  "is_outbound fd ego_node_ids =
     (if producer_ids fd = {} \<or> ego_node_ids = {} then False
      else ego_node_ids \<inter> producer_ids fd \<noteq> {})"

subsection \<open>\<^verbatim>\<open>CanFrame.unpack\<close>\<close>

fun unpack_loop :: "CanFrame \<Rightarrow> CanSignalDefinition list \<Rightarrow> (string \<rightharpoonup> pynum)
    \<Rightarrow> error + (string \<rightharpoonup> pynum)" where
  "unpack_loop f [] outputdict = Inr outputdict"
| "unpack_loop f (sigdef # rest) outputdict =
     and_then (get_signalvalue f sigdef) (\<lambda>val.
       unpack_loop f rest (outputdict(signalname sigdef \<mapsto> val)))"

definition unpack :: "CanFrame \<Rightarrow> (int \<rightharpoonup> CanFrameDefinition) \<Rightarrow> error + (string \<rightharpoonup> pynum)" where
  "unpack f frame_definitions =
     (case frame_definitions (frame_id f) of
        None \<Rightarrow> Inr Map.empty
      | Some fr_def \<Rightarrow>
          if int (length (frame_data f)) \<noteq> dlc fr_def then Inl CanException
          else unpack_loop f (signaldefinitions fr_def) Map.empty)"

subsection \<open>\<^verbatim>\<open>caninterface_bcm\<close>: messages to the broadcast manager\<close>

text \<open>
  The opcodes are the constants \<^verbatim>\<open>socket.CAN_BCM_*\<close>. A header is the tuple of values that
  \<^verbatim>\<open>_build_bcm_header\<close> hands to \<^verbatim>\<open>struct.pack\<close> with \<^verbatim>\<open>FORMAT_BCM_HEADER = "@3I4l2I0q"\<close>;
  the byte layout of that format depends on the host and is not modelled, its range tests
  are: a value of code \<^verbatim>\<open>I\<close> lies in \<open>0 .. 2^32 - 1\<close>, a value of code \<^verbatim>\<open>l\<close> fits the
  host's \<^verbatim>\<open>long\<close> of \<open>long_size\<close> bytes.
\<close>

datatype bcm_opcode =
    CAN_BCM_TX_SETUP
  | CAN_BCM_TX_DELETE
  | CAN_BCM_TX_SEND
  | CAN_BCM_RX_SETUP
  | CAN_BCM_RX_DELETE
  | CAN_BCM_RX_CHANGED

definition BCM_FLAG_SETTIMER :: int where
  "BCM_FLAG_SETTIMER = 0x0001"

definition BCM_FLAG_STARTTIMER :: int where
  "BCM_FLAG_STARTTIMER = 0x0002"

record host =
  native_order :: endianness
  long_size :: nat

record bcm_header =
  opcode :: bcm_opcode
  flags :: int
  ival1_count :: int
  ival1_seconds :: int
  ival1_useconds :: int
  ival2_seconds :: int
  ival2_useconds :: int
  frame_id_std_ext :: int
  number_of_bcm_frames :: int

definition fits_unsigned_int :: "int \<Rightarrow> bool" where
  "fits_unsigned_int v \<longleftrightarrow> 0 \<le> v \<and> v < 2 ^ 32"

definition fits_long :: "host \<Rightarrow> int \<Rightarrow> bool" where
  "fits_long h v \<longleftrightarrow> - (2 ^ (8 * long_size h - 1)) \<le> v \<and> v < 2 ^ (8 * long_size h - 1)"

definition build_bcm_header ::
  "host \<Rightarrow> bcm_opcode \<Rightarrow> int \<Rightarrow> pynum \<Rightarrow> int \<Rightarrow> frame_format \<Rightarrow> int \<Rightarrow> error + bcm_header" where
  "build_bcm_header h opcode_arg flags_arg interval fid fmt nframes =
     (let id_std_ext = (if fmt = CAN_FRAMEFORMAT_EXTENDED
                        then fid OR CAN_MASK_EXTENDED_FRAME_BIT else fid)
      in and_then (py_truediv interval (PyInt MILLISECONDS_PER_SECOND)) (\<lambda>interval_s.
         and_then (split_seconds_to_full_and_part (PyInt 0)) (\<lambda>(i1_seconds, i1_useconds).
         and_then (split_seconds_to_full_and_part interval_s) (\<lambda>(i2_seconds, i2_useconds).
           if fits_unsigned_int flags_arg \<and> fits_unsigned_int 0
              \<and> fits_long h i1_seconds \<and> fits_long h i1_useconds
              \<and> fits_long h i2_seconds \<and> fits_long h i2_useconds
              \<and> fits_unsigned_int id_std_ext \<and> fits_unsigned_int nframes
           then Inr \<lparr>opcode = opcode_arg, flags = flags_arg, ival1_count = 0,
                     ival1_seconds = i1_seconds, ival1_useconds = i1_useconds,
                     ival2_seconds = i2_seconds, ival2_useconds = i2_useconds,
                     frame_id_std_ext = id_std_ext, number_of_bcm_frames = nframes\<rparr>
           else Inl StructError))))"

text \<open>
  What a socket is given to send: a header of the broadcast manager followed by the bytes
  of the raw frames, or, on a raw socket, the bytes of one raw frame. The kernel answers a
  \<^verbatim>\<open>send\<close> with success or with an error number; \<open>kernel\<close> is that answer, and \<open>sent\<close>
  of a bus is the list of the datagrams that the socket accepted, oldest first.
\<close>

datatype datagram = BcmMessage bcm_header "byte list" | RawFrame "byte list"

datatype errno = EBADF | ENETDOWN | EINVAL | EOTHER

type_synonym kernel = "datagram \<Rightarrow> errno option"

definition send_via_socket :: "kernel \<Rightarrow> datagram list \<Rightarrow> datagram \<Rightarrow> error + datagram list" where
  "send_via_socket k outbox d =
     (case k d of
        None \<Rightarrow> Inr (outbox @ [d])
      | Some EBADF \<Rightarrow> Inl CanException
      | Some ENETDOWN \<Rightarrow> Inl CanException
      | Some EINVAL \<Rightarrow> Inl CanNotFoundByKernelException
      | Some EOTHER \<Rightarrow> Inl OSError)"

definition bcm_send_frame :: "host \<Rightarrow> kernel \<Rightarrow> datagram list \<Rightarrow> CanFrame \<Rightarrow> error + datagram list" where
  "bcm_send_frame h k outbox input_frame =
     and_then (build_bcm_header h CAN_BCM_TX_SEND 0 (PyInt 0) (frame_id input_frame)
                 (frame_format input_frame) 1) (\<lambda>header.
     and_then (get_rawframe (native_order h) input_frame) (\<lambda>raw.
     send_via_socket k outbox (BcmMessage header raw)))"

definition setup_periodic_send ::
  "host \<Rightarrow> kernel \<Rightarrow> datagram list \<Rightarrow> CanFrame \<Rightarrow> pynum option \<Rightarrow> bool \<Rightarrow> error + datagram list" where
  "setup_periodic_send h k outbox input_frame interval_arg restart_timer =
     and_then
       (case interval_arg of
          None \<Rightarrow> Inr (0, PyInt 0)
        | Some interval \<Rightarrow>
            and_then (py_float interval) (\<lambda>_.
              if py_lt interval (PyInt 0) then Inl CanException
              else Inr (0 OR BCM_FLAG_SETTIMER, interval)))
       (\<lambda>(flags1, interval).
          let flags2 = (if restart_timer then flags1 OR BCM_FLAG_STARTTIMER else flags1)
          in and_then (build_bcm_header h CAN_BCM_TX_SETUP flags2 interval (frame_id input_frame)
                         (frame_format input_frame) 1) (\<lambda>header.
             and_then (get_rawframe (native_order h) input_frame) (\<lambda>raw.
             send_via_socket k outbox (BcmMessage header raw))))"

text \<open>\<^verbatim>\<open>SocketCanRawInterface.send_frame\<close> turns every \<^verbatim>\<open>OSError\<close> into a \<^verbatim>\<open>CanException\<close>.\<close>

definition raw_send_frame :: "host \<Rightarrow> kernel \<Rightarrow> datagram list \<Rightarrow> CanFrame \<Rightarrow> error + datagram list" where
  "raw_send_frame h k outbox input_frame =
     and_then (get_rawframe (native_order h) input_frame) (\<lambda>raw.
       case k (RawFrame raw) of
         None \<Rightarrow> Inr (outbox @ [RawFrame raw])
       | Some _ \<Rightarrow> Inl CanException)"

subsection \<open>\<^verbatim>\<open>canbus.CanBus\<close>\<close>

datatype transmission_status =
    STATUS_NONPERIODIC
  | STATUS_PERIODIC
  | STATUS_PERIODIC_NOT_YET_STARTED

text \<open>
  The bus keeps one \<^verbatim>\<open>CanFrame\<close> object for each outbound frame definition, and
  \<^verbatim>\<open>_output_frame_storage\<close> maps each signal name of the definition to that same object:
  \<open>frames\<close> is the store of these objects, indexed by a reference, and
  \<open>output_frame_storage\<close> holds the references.
\<close>

record CanBus =
  use_bcm :: bool
  output_signaldefinition_storage :: "string \<rightharpoonup> CanSignalDefinition"
  output_frame_storage :: "string \<rightharpoonup> nat"
  frames :: "nat \<rightharpoonup> CanFrame"
  output_framedefinition_storage :: "int \<rightharpoonup> CanFrameDefinition"
  input_framedefinition_storage :: "CanFrameDefinition list"
  transmissionstatus :: "int \<rightharpoonup> transmission_status"
  sent :: "datagram list"

text \<open>
  The constructor. The configuration's dictionary of frame definitions is the list of its
  items; \<open>ego_node_ids\<close> is the configuration's set of node ids. For each definition the
  inner loop sets every signal of the new frame to its default value.
\<close>

fun init_signals :: "CanSignalDefinition list \<Rightarrow> nat \<Rightarrow> CanBus \<Rightarrow> error + CanBus" where
  "init_signals [] ref bus = Inr bus"
| "init_signals (sigdef # rest) ref bus =
     (case frames bus ref of
        None \<Rightarrow> Inl KeyError
      | Some fr \<Rightarrow>
          and_then (set_signalvalue fr sigdef None) (\<lambda>fr'.
            init_signals rest ref
              (bus\<lparr>output_signaldefinition_storage :=
                     (output_signaldefinition_storage bus)(signalname sigdef \<mapsto> sigdef),
                   frames := (frames bus)(ref \<mapsto> fr'),
                   output_frame_storage :=
                     (output_frame_storage bus)(signalname sigdef \<mapsto> ref)\<rparr>)))"

fun init_frames :: "string set \<Rightarrow> (int \<times> CanFrameDefinition) list \<Rightarrow> nat \<Rightarrow> CanBus \<Rightarrow> error + CanBus" where
  "init_frames ego_node_ids [] next_ref bus = Inr bus"
| "init_frames ego_node_ids ((frameID, framedef) # rest) next_ref bus =
     (if is_outbound framedef ego_node_ids then
        (let bus1 = bus\<lparr>output_framedefinition_storage :=
                          (output_framedefinition_storage bus)(frameID \<mapsto> framedef),
                        transmissionstatus :=
                          (transmissionstatus bus)(def_frame_id framedef \<mapsto>
                             (if cycletime framedef = Some 0 \<or> cycletime framedef = None
                              then STATUS_NONPERIODIC else STATUS_PERIODIC_NOT_YET_STARTED))\<rparr>
         in and_then (from_empty_bytes frameID (dlc framedef) (def_frame_format framedef)) (\<lambda>fr.
            and_then (init_signals (signaldefinitions framedef) next_ref
                        (bus1\<lparr>frames := (frames bus1)(next_ref \<mapsto> fr)\<rparr>)) (\<lambda>bus2.
            init_frames ego_node_ids rest (Suc next_ref) bus2)))
      else
        init_frames ego_node_ids rest next_ref
          (bus\<lparr>input_framedefinition_storage := input_framedefinition_storage bus @ [framedef]\<rparr>))"

definition CanBus_init :: "(int \<times> CanFrameDefinition) list \<Rightarrow> string set \<Rightarrow> bool \<Rightarrow> error + CanBus" where
  "CanBus_init framedefinitions ego_node_ids use_bcm_arg =
     init_frames ego_node_ids framedefinitions 0
       \<lparr>use_bcm = use_bcm_arg, output_signaldefinition_storage = Map.empty,
        output_frame_storage = Map.empty, frames = Map.empty,
        output_framedefinition_storage = Map.empty, input_framedefinition_storage = [],
        transmissionstatus = Map.empty, sent = []\<rparr>"

text \<open>
  \<^verbatim>\<open>send_signals\<close>, called with a dictionary, which is the list of its items here. The
  first loop writes the values into the frames and collects the set \<^verbatim>\<open>frames_to_send\<close>;
  the order in which Python walks a set of objects is not specified, and the model walks
  it in the order of first insertion.
\<close>

fun update_frames :: "(string \<times> pynum option) list \<Rightarrow> nat list \<Rightarrow> CanBus \<Rightarrow> error + (nat list \<times> CanBus)" where
  "update_frames [] frames_to_send bus = Inr (frames_to_send, bus)"
| "update_frames ((sname, value) # rest) frames_to_send bus =
     (case output_signaldefinition_storage bus sname of
        None \<Rightarrow> Inl CanException
      | Some signaldefinition \<Rightarrow>
          (case output_frame_storage bus sname of
             None \<Rightarrow> Inl KeyError
           | Some ref \<Rightarrow>
               (case frames bus ref of
                  None \<Rightarrow> Inl KeyError
                | Some frame \<Rightarrow>
                    and_then (set_signalvalue frame signaldefinition value) (\<lambda>frame'.
                      update_frames rest
                        (if ref \<in> set frames_to_send then frames_to_send
                         else frames_to_send @ [ref])
                        (bus\<lparr>frames := (frames bus)(ref \<mapsto> frame')\<rparr>)))))"

text \<open>The body of the loop over \<^verbatim>\<open>frames_to_send\<close> when the broadcast manager is used.\<close>

definition send_one_bcm :: "host \<Rightarrow> kernel \<Rightarrow> CanBus \<Rightarrow> CanFrame \<Rightarrow> error + CanBus" where
  "send_one_bcm h k bus frame =
     (case transmissionstatus bus (frame_id frame) of
        None \<Rightarrow> Inl KeyError
      | Some status \<Rightarrow>
          and_then
            (if status = STATUS_PERIODIC_NOT_YET_STARTED then
               (case output_framedefinition_storage bus (frame_id frame) of
                  None \<Rightarrow> Inl KeyError
                | Some framedef \<Rightarrow>
                    and_then (setup_periodic_send h k (sent bus) frame
                                (map_option PyInt (cycletime framedef)) True) (\<lambda>outbox.
                      Inr (bus\<lparr>sent := outbox,
                               transmissionstatus :=
                                 (transmissionstatus bus)(frame_id frame \<mapsto> STATUS_PERIODIC)\<rparr>)))
             else Inr bus)
            (\<lambda>bus1.
               if status = STATUS_PERIODIC then
                 and_then (setup_periodic_send h k (sent bus1) frame None False)
                   (\<lambda>outbox. Inr (bus1\<lparr>sent := outbox\<rparr>))
               else
                 and_then (bcm_send_frame h k (sent bus1) frame)
                   (\<lambda>outbox. Inr (bus1\<lparr>sent := outbox\<rparr>))))"

fun send_frames :: "host \<Rightarrow> kernel \<Rightarrow> nat list \<Rightarrow> CanBus \<Rightarrow> error + CanBus" where
  "send_frames h k [] bus = Inr bus"
| "send_frames h k (ref # rest) bus =
     (case frames bus ref of
        None \<Rightarrow> Inl KeyError
      | Some frame \<Rightarrow>
          and_then
            (if use_bcm bus then send_one_bcm h k bus frame
             else and_then (raw_send_frame h k (sent bus) frame)
                    (\<lambda>outbox. Inr (bus\<lparr>sent := outbox\<rparr>)))
            (\<lambda>bus'. send_frames h k rest bus'))"

definition send_signals :: "host \<Rightarrow> kernel \<Rightarrow> CanBus \<Rightarrow> (string \<times> pynum option) list \<Rightarrow> error + CanBus" where
  "send_signals h k bus signals_to_send =
     and_then (update_frames signals_to_send [] bus) (\<lambda>(frames_to_send, bus1).
       send_frames h k frames_to_send bus1)"

subsection \<open>The signals and frames of the scenarios\<close>

text \<open>
  A signal definition as the constructor returns it for a name, a start bit, a number of
  bits, a byte order, a signal type and an optional \<^verbatim>\<open>maxvalue\<close>, the other arguments being
  the constructor's defaults (scaling factor 1, offset 0, no default value, no \<^verbatim>\<open>minvalue\<close>).
\<close>

definition plain_signal ::
  "string \<Rightarrow> int \<Rightarrow> int \<Rightarrow> endianness \<Rightarrow> signaltype \<Rightarrow> pynum option \<Rightarrow> CanSignalDefinition" where
  "plain_signal sname start bits order stype maxv =
     \<lparr>signalname = sname, startbit = start, numberofbits = bits,
      scalingfactor = Fin 1, valueoffset = Fin 0, defaultvalue = Some (PyInt 0),
      unit = [], comment = [], minvalue = None, maxvalue = maxv,
      endianness = order, signaltype = stype\<rparr>"

definition testsignal1 :: CanSignalDefinition where
  "testsignal1 = plain_signal ''testsignal1'' 56 1 LITTLE_ENDIAN CAN_SIGNALTYPE_UNSIGNED None"

definition testsignal2 :: CanSignalDefinition where
  "testsignal2 = plain_signal ''testsignal2'' 8 16 BIG_ENDIAN CAN_SIGNALTYPE_UNSIGNED None"

definition testsignal3 :: CanSignalDefinition where
  "testsignal3 = plain_signal ''testsignal3'' 24 16 LITTLE_ENDIAN CAN_SIGNALTYPE_UNSIGNED None"

definition testsignal3_max :: CanSignalDefinition where
  "testsignal3_max =
     plain_signal ''testsignal3'' 24 16 LITTLE_ENDIAN CAN_SIGNALTYPE_UNSIGNED (Some (PyInt 1200))"

text \<open>An unsigned signal over all 64 bits with \<^verbatim>\<open>maxvalue=1200\<close>.\<close>

definition wide_signal_max :: CanSignalDefinition where
  "wide_signal_max =
     plain_signal ''widesignal'' 0 64 LITTLE_ENDIAN CAN_SIGNALTYPE_UNSIGNED (Some (PyInt 1200))"


definition testsignal4 :: CanSignalDefinition where
  "testsignal4 = plain_signal ''testsignal4'' 48 8 LITTLE_ENDIAN CAN_SIGNALTYPE_SIGNED None"

text \<open>A frame definition with the constructor's defaults apart from the given fields.\<close>

definition plain_framedef ::
  "int \<Rightarrow> int \<Rightarrow> int option \<Rightarrow> string set \<Rightarrow> CanSignalDefinition list \<Rightarrow> CanFrameDefinition" where
  "plain_framedef fid len cycle producers sigs =
     \<lparr>def_frame_id = fid, def_frame_format = CAN_FRAMEFORMAT_STANDARD, name = [],
      dlc = len, cycletime = cycle, throttle_time = None, producer_ids = producers,
      signaldefinitions = sigs, receive_on_change_only = False\<rparr>"

text \<open>
  The frame definition of the test of \<^verbatim>\<open>get_signal_mask\<close>: id 4, eight bytes, the four
  test signals.
\<close>

definition mask_framedef :: CanFrameDefinition where
  "mask_framedef = plain_framedef 4 8 None {} [testsignal1, testsignal2, testsignal3, testsignal4]"

text \<open>
  A frame definition of one byte with a signal in the second byte, and the frame
  definitions of a bus that has only this one, or only the one of the mask test.
\<close>

definition short_framedef :: CanFrameDefinition where
  "short_framedef =
     plain_framedef 1 1 None {}
       [plain_signal ''testsignal'' 8 8 LITTLE_ENDIAN CAN_SIGNALTYPE_UNSIGNED None]"

definition short_framedefs :: "int \<rightharpoonup> CanFrameDefinition" where
  "short_framedefs = [1 \<mapsto> short_framedef]"

definition mask_framedefs :: "int \<rightharpoonup> CanFrameDefinition" where
  "mask_framedefs = [4 \<mapsto> mask_framedef]"

definition zero_frame :: "int \<Rightarrow> nat \<Rightarrow> CanFrame" where
  "zero_frame fid len =
     \<lparr>frame_id = fid, frame_data = replicate len 0, frame_format = CAN_FRAMEFORMAT_STANDARD\<rparr>"

text \<open>
  Scenario S7: a bus on the broadcast manager with one outbound frame definition (id 7,
  eight bytes, cycle time 20 ms, the signal \<^verbatim>\<open>testsignal1\<close>), as its constructor leaves it;
  a host with little-endian byte order and an eight-byte \<^verbatim>\<open>long\<close>; a kernel that accepts
  every datagram.
\<close>

definition periodic_framedef :: CanFrameDefinition where
  "periodic_framedef = plain_framedef 7 8 (Some 20) {''ego''} [testsignal1]"

definition periodic_bus :: CanBus where
  "periodic_bus =
     \<lparr>use_bcm = True,
      output_signaldefinition_storage = [''testsignal1'' \<mapsto> testsignal1],
      output_frame_storage = [''testsignal1'' \<mapsto> 0],
      frames = [0 \<mapsto> zero_frame 7 8],
      output_framedefinition_storage = [7 \<mapsto> periodic_framedef],
      input_framedefinition_storage = [],
      transmissionstatus = [7 \<mapsto> STATUS_PERIODIC_NOT_YET_STARTED],
      sent = []\<rparr>"

definition linux_host :: host where
  "linux_host = \<lparr>native_order = LITTLE_ENDIAN, long_size = 8\<rparr>"

definition accepting_kernel :: kernel where
  "accepting_kernel = (\<lambda>_. None)"

definition tx_header :: "bcm_opcode \<Rightarrow> int \<Rightarrow> int \<Rightarrow> int \<Rightarrow> int \<Rightarrow> bcm_header" where
  "tx_header op fl seconds useconds fid =
     \<lparr>opcode = op, flags = fl, ival1_count = 0, ival1_seconds = 0, ival1_useconds = 0,
      ival2_seconds = seconds, ival2_useconds = useconds, frame_id_std_ext = fid,
      number_of_bcm_frames = 1\<rparr>"

subsection \<open>Bit positions\<close>

text \<open>
  The bit of a payload at a position of the normal numbering (bit \<open>p mod 8\<close> of byte
  \<open>p div 8\<close>; false beyond the payload), the backward number of a normal position, and the
  positions of a signal. The bit \<open>k\<close> of a little-endian signal is at the normal position
  \<open>startbit + k\<close>, the bit \<open>k\<close> of a big-endian signal at the backward position
  \<open>backward startbit + k\<close>.
\<close>

definition payload_bit :: "byte list \<Rightarrow> nat \<Rightarrow> bool" where
  "payload_bit data p \<longleftrightarrow> p div 8 < length data \<and> bit (data ! (p div 8)) (p mod 8)"

definition backward :: "nat \<Rightarrow> nat" where
  "backward p = 8 * (7 - p div 8) + p mod 8"

definition signal_bit :: "CanSignalDefinition \<Rightarrow> nat \<Rightarrow> nat" where
  "signal_bit S k =
     (if endianness S = LITTLE_ENDIAN then nat (startbit S) + k
      else backward (backward (nat (startbit S)) + k))"

text \<open>
  The positions a signal occupies, as the specification words them: of the 64 positions of
  a payload, a little-endian signal the normal positions from \<open>startbit\<close> to
  \<open>startbit + numberofbits - 1\<close>, a big-endian signal the backward positions from
  \<open>backward startbit\<close> to \<open>backward startbit + numberofbits - 1\<close>.
\<close>

definition occupies :: "CanSignalDefinition \<Rightarrow> nat \<Rightarrow> bool" where
  "occupies S p \<longleftrightarrow>
     int p < BITS_IN_FULL_DATA \<and>
     (if endianness S = LITTLE_ENDIAN
      then startbit S \<le> int p \<and> int p \<le> startbit S + numberofbits S - 1
      else int (backward (nat (startbit S))) \<le> int (backward p)
           \<and> int (backward p) \<le> int (backward (nat (startbit S))) + numberofbits S - 1)"

text \<open>
  The layouts the setters of \<^verbatim>\<open>startbit\<close> and \<^verbatim>\<open>numberofbits\<close> accept, and the frame
  definitions all of whose signals have such a layout and fit into the dlc.
\<close>

definition valid_layout :: "CanSignalDefinition \<Rightarrow> bool" where
  "valid_layout S \<longleftrightarrow>
     0 \<le> startbit S \<and> startbit S \<le> BITS_IN_FULL_DATA - 1
     \<and> check_numberofbits (endianness S) (signaltype S) (startbit S) (numberofbits S) = Inr ()"

definition signals_fit :: "CanFrameDefinition \<Rightarrow> bool" where
  "signals_fit fd \<longleftrightarrow>
     (\<forall>S \<in> set (signaldefinitions fd). valid_layout S \<and> get_minimum_dlc S \<le> dlc fd)"

text \<open>
  The number of the bit of the bus value that an occupied position carries: position
  \<open>signal_bit S k\<close> carries bit \<open>k\<close>.
\<close>

definition value_index :: "CanSignalDefinition \<Rightarrow> nat \<Rightarrow> nat" where
  "value_index S p =
     (if endianness S = LITTLE_ENDIAN then p - nat (startbit S)
      else backward p - backward (nat (startbit S)))"

section \<open>Properties\<close>

subsection \<open>Bytes and integers\<close>

lemma length_int_to_bytes_be [simp]: "length (int_to_bytes_be n v) = n"
  by (simp add: int_to_bytes_be_def)

lemma nth_int_to_bytes_be:
  "k < n \<Longrightarrow> int_to_bytes_be n v ! k = word_of_int (drop_bit (8 * (n - 1 - k)) v)"
  by (simp add: int_to_bytes_be_def)

lemma int_to_bytes_be_Suc:
  "int_to_bytes_be (Suc n) v = word_of_int (drop_bit (8 * n) v) # int_to_bytes_be n v"
proof (rule nth_equalityI)
  show "length (int_to_bytes_be (Suc n) v)
      = length (word_of_int (drop_bit (8 * n) v) # int_to_bytes_be n v)"
    by simp
next
  fix i assume "i < length (int_to_bytes_be (Suc n) v)"
  then have i: "i < Suc n" by simp
  show "int_to_bytes_be (Suc n) v ! i
      = (word_of_int (drop_bit (8 * n) v) # int_to_bytes_be n v) ! i"
  proof (cases i)
    case 0
    then show ?thesis by (simp add: nth_int_to_bytes_be)
  next
    case (Suc j)
    with i have "j < n" by simp
    with Suc show ?thesis by (simp add: nth_int_to_bytes_be)
  qed
qed

lemma bytes_to_int_be_nonneg: "0 \<le> bytes_to_int_be bs"
  by (induction bs) simp_all

lemma bytes_to_int_be_bound: "bytes_to_int_be bs < 2 ^ (8 * length bs)"
proof (induction bs)
  case Nil
  then show ?case by simp
next
  case (Cons b bs)
  have "uint b < 2 ^ 8"
    using uint_bounded [of b] by simp
  then have "uint b + 1 \<le> 2 ^ 8" by simp
  then have "(uint b + 1) * 2 ^ (8 * length bs) \<le> 2 ^ 8 * 2 ^ (8 * length bs)"
    by (rule mult_right_mono) simp
  then have "uint b * 2 ^ (8 * length bs) + 2 ^ (8 * length bs) \<le> 2 ^ (8 + 8 * length bs)"
    by (simp add: algebra_simps power_add)
  with Cons.IH show ?case
    by (simp add: push_bit_eq_mult)
qed

lemma bytes_to_int_be_take_bit: "take_bit (8 * length bs) (bytes_to_int_be bs) = bytes_to_int_be bs"
  using bytes_to_int_be_nonneg [of bs] bytes_to_int_be_bound [of bs]
  by (simp add: take_bit_int_eq_self)

lemma bit_bytes_to_int_be_bound: "bit (bytes_to_int_be bs) i \<Longrightarrow> i < 8 * length bs"
proof -
  assume "bit (bytes_to_int_be bs) i"
  then have "bit (take_bit (8 * length bs) (bytes_to_int_be bs)) i"
    by (simp only: bytes_to_int_be_take_bit)
  then show ?thesis by (simp add: bit_take_bit_iff)
qed

lemma bytes_to_int_be_Cons_or:
  "bytes_to_int_be (b # bs) = push_bit (8 * length bs) (uint b) OR bytes_to_int_be bs"
proof -
  have "\<not> bit (push_bit (8 * length bs) (uint b)) n \<or> \<not> bit (bytes_to_int_be bs) n" for n
    using bit_bytes_to_int_be_bound [of bs n] by (auto simp: bit_push_bit_iff)
  then show ?thesis
    by (simp add: disjunctive_add)
qed

lemma bit_bytes_to_int_be:
  "bit (bytes_to_int_be bs) i \<longleftrightarrow>
     i < 8 * length bs \<and> bit (bs ! (length bs - 1 - i div 8)) (i mod 8)"
proof (induction bs)
  case Nil
  then show ?case by simp
next
  case (Cons b bs)
  show ?case
  proof (cases "i < 8 * length bs")
    case True
    then have "i div 8 < length bs" by simp
    then have "(b # bs) ! (length (b # bs) - 1 - i div 8) = bs ! (length bs - 1 - i div 8)"
      by (simp add: nth_Cons' )
    with True Cons.IH show ?thesis
      by (simp del: bytes_to_int_be.simps add: bytes_to_int_be_Cons_or bit_or_iff bit_push_bit_iff)
  next
    case False
    then have nb: "\<not> bit (bytes_to_int_be bs) i"
      using bit_bytes_to_int_be_bound by blast
    show ?thesis
    proof (cases "i < 8 * length bs + 8")
      case True
      with False have d: "i div 8 = length bs" by linarith
      have m: "i - 8 * length bs = i mod 8" using d
        by (metis minus_mult_div_eq_mod)
      from False True d nb show ?thesis
        by (simp del: bytes_to_int_be.simps add: bytes_to_int_be_Cons_or bit_or_iff bit_push_bit_iff m bit_uint_iff)
    next
      case False
      then have "\<not> i - 8 * length bs < 8" by simp
      then have "\<not> bit (uint b) (i - 8 * length bs)"
        by (simp add: bit_uint_iff)
      with False nb show ?thesis
        by (simp del: bytes_to_int_be.simps add: bytes_to_int_be_Cons_or bit_or_iff bit_push_bit_iff)
    qed
  qed
qed


lemma bytes_to_int_be_int_to_bytes_be:
  "bytes_to_int_be (int_to_bytes_be n v) = take_bit (8 * n) v"
proof (rule bit_eqI)
  fix i
  show "bit (bytes_to_int_be (int_to_bytes_be n v)) i \<longleftrightarrow> bit (take_bit (8 * n) v) i"
  proof (cases "i < 8 * n")
    case True
    then have d: "i div 8 < n" by simp
    then have k: "n - 1 - i div 8 < n" by simp
    have e: "8 * (n - 1 - (n - 1 - i div 8)) + i mod 8 = i"
      using d by simp
    have "i mod 8 < 8" by simp
    have "bit (bytes_to_int_be (int_to_bytes_be n v)) i
        \<longleftrightarrow> bit (word_of_int (drop_bit (8 * (n - 1 - (n - 1 - i div 8))) v) :: byte) (i mod 8)"
      using True k by (simp add: bit_bytes_to_int_be nth_int_to_bytes_be)
    also have "\<dots> \<longleftrightarrow> bit v (8 * (n - 1 - (n - 1 - i div 8)) + i mod 8)"
      by (simp add: bit_word_of_int_iff bit_drop_bit_eq)
    also have "\<dots> \<longleftrightarrow> bit v i"
      by (simp only: e)
    finally show ?thesis
      using True by (simp add: bit_take_bit_iff)
  next
    case False
    then show ?thesis
      by (simp add: bit_bytes_to_int_be bit_take_bit_iff)
  qed
qed

lemma bytes_to_int_be_rev_rev_int_to_bytes_be:
  "0 \<le> v \<Longrightarrow> v < 2 ^ (8 * n) \<Longrightarrow> unpack_uint order (case order of BIG_ENDIAN \<Rightarrow> int_to_bytes_be n v
                            | LITTLE_ENDIAN \<Rightarrow> rev (int_to_bytes_be n v)) = v"
  by (cases order) (simp_all add: unpack_uint_def bytes_to_int_be_int_to_bytes_be take_bit_int_eq_self)

lemma unpack_pack_uint:
  "pack_uint order n v = Inr bs \<Longrightarrow> unpack_uint order bs = v \<and> length bs = n"
  by (cases order) (auto simp: pack_uint_def unpack_uint_def bytes_to_int_be_int_to_bytes_be
      take_bit_int_eq_self split: if_splits)

lemma pack_uint_ok:
  "0 \<le> v \<Longrightarrow> v < 2 ^ (8 * n) \<Longrightarrow> \<exists>bs. pack_uint order n v = Inr bs"
  by (simp add: pack_uint_def)

lemma unpack_uint_bounds: "0 \<le> unpack_uint order bs \<and> unpack_uint order bs < 2 ^ (8 * length bs)"
  using bytes_to_int_be_nonneg [of bs] bytes_to_int_be_bound [of bs]
    bytes_to_int_be_nonneg [of "rev bs"] bytes_to_int_be_bound [of "rev bs"]
  by (cases order) (simp_all add: unpack_uint_def)

lemma bit_extended_frame_bit: "bit CAN_MASK_EXTENDED_FRAME_BIT i \<longleftrightarrow> i = 31"
proof -
  have "CAN_MASK_EXTENDED_FRAME_BIT = 2 ^ 31"
    by (simp add: CAN_MASK_EXTENDED_FRAME_BIT_def)
  then have "bit CAN_MASK_EXTENDED_FRAME_BIT i \<longleftrightarrow> bit ((2::int) ^ 31) i"
    by (simp only:)
  also have "\<dots> \<longleftrightarrow> i = 31"
    by (simp only: bit_exp_iff) auto
  finally show ?thesis .
qed

lemma id_or_extended_bit:
  assumes "0 \<le> v" "v \<le> MAX_CAN_FRAME_ID_EXTENDED"
  shows "0 \<le> v OR CAN_MASK_EXTENDED_FRAME_BIT"
    and "v OR CAN_MASK_EXTENDED_FRAME_BIT < 2 ^ 32"
    and "(v OR CAN_MASK_EXTENDED_FRAME_BIT) AND CAN_MASK_ID_ONLY = v"
    and "(v OR CAN_MASK_EXTENDED_FRAME_BIT) AND CAN_MASK_EXTENDED_FRAME_BIT \<noteq> 0"
proof -
  have m: "CAN_MASK_ID_ONLY = mask 29"
    by (simp add: CAN_MASK_ID_ONLY_def mask_eq_exp_minus_1)
  have x: "bit CAN_MASK_EXTENDED_FRAME_BIT i \<longleftrightarrow> i = 31" for i
    by (rule bit_extended_frame_bit)
  have v: "take_bit 29 v = v"
    using assms by (simp add: take_bit_int_eq_self MAX_CAN_FRAME_ID_EXTENDED_def)
  have bv: "bit v i \<Longrightarrow> i < 29" for i
    using v by (metis bit_take_bit_iff)
  show "0 \<le> v OR CAN_MASK_EXTENDED_FRAME_BIT"
    using assms by (simp add: CAN_MASK_EXTENDED_FRAME_BIT_def)
  have "take_bit 32 (v OR CAN_MASK_EXTENDED_FRAME_BIT) = v OR CAN_MASK_EXTENDED_FRAME_BIT"
    by (rule bit_eqI) (auto simp: x bit_take_bit_iff bit_or_iff dest: bv)
  then show "v OR CAN_MASK_EXTENDED_FRAME_BIT < 2 ^ 32"
    by (metis take_bit_int_less_exp)
  show "(v OR CAN_MASK_EXTENDED_FRAME_BIT) AND CAN_MASK_ID_ONLY = v"
    by (rule bit_eqI) (auto simp: x m bit_and_iff bit_or_iff bit_mask_iff dest: bv)
  have "bit ((v OR CAN_MASK_EXTENDED_FRAME_BIT) AND CAN_MASK_EXTENDED_FRAME_BIT) 31"
    by (simp add: x bit_and_iff bit_or_iff)
  then show "(v OR CAN_MASK_EXTENDED_FRAME_BIT) AND CAN_MASK_EXTENDED_FRAME_BIT \<noteq> 0"
    by auto
qed

lemma id_plain:
  assumes "0 \<le> v" "v \<le> MAX_CAN_FRAME_ID_STANDARD"
  shows "v < 2 ^ 32"
    and "v AND CAN_MASK_ID_ONLY = v"
    and "v AND CAN_MASK_EXTENDED_FRAME_BIT = 0"
proof -
  have m: "CAN_MASK_ID_ONLY = mask 29"
    by (simp add: CAN_MASK_ID_ONLY_def mask_eq_exp_minus_1)
  have x: "bit CAN_MASK_EXTENDED_FRAME_BIT i \<longleftrightarrow> i = 31" for i
    by (rule bit_extended_frame_bit)
  have v: "take_bit 11 v = v"
    using assms by (simp add: take_bit_int_eq_self MAX_CAN_FRAME_ID_STANDARD_def)
  have bv: "bit v i \<Longrightarrow> i < 11" for i
    using v by (metis bit_take_bit_iff)
  show "v < 2 ^ 32" using assms by (simp add: MAX_CAN_FRAME_ID_STANDARD_def)
  show "v AND CAN_MASK_ID_ONLY = v"
    by (rule bit_eqI) (auto simp: m bit_and_iff bit_mask_iff dest: bv)
  show "v AND CAN_MASK_EXTENDED_FRAME_BIT = 0"
    by (rule bit_eqI) (auto simp: x bit_and_iff dest: bv)
qed


lemma CanFrame_init_valid:
  "valid_frame f \<Longrightarrow> CanFrame_init (frame_id f) (frame_data f) (frame_format f) = Inr f"
  by (cases "frame_format f")
    (simp_all add: valid_frame_def CanFrame_init_def check_frame_id_and_format_def
      MAX_NUMBER_OF_CAN_DATA_BYTES_def MAX_CAN_FRAME_ID_STANDARD_def MAX_CAN_FRAME_ID_EXTENDED_def)

lemma take_ljust: "length bs \<le> n \<Longrightarrow> take (length bs) (ljust n bs) = bs"
  by (simp add: ljust_def)

lemma unpack_pack_rawframe:
  assumes "pack_rawframe native first_part dl data = Inr raw"
  shows "unpack_rawframe native raw = Inr (first_part, nat dl, ljust 8 (take 8 data))"
proof -
  from assms obtain idb dlb where
    idb: "pack_uint native 4 first_part = Inr idb" and
    dlb: "pack_uint native 1 dl = Inr dlb" and
    raw: "raw = idb @ dlb @ [0, 0, 0] @ ljust 8 (take 8 data)"
    by (auto simp: pack_rawframe_def split: sum.splits)
  from unpack_pack_uint [OF idb] have i: "unpack_uint native idb = first_part" "length idb = 4"
    by simp_all
  from unpack_pack_uint [OF dlb] have d: "unpack_uint native dlb = dl" "length dlb = 1"
    by simp_all
  from d(2) obtain b where b: "dlb = [b]"
    by (cases dlb) simp_all
  have ub: "uint b = dl"
    using d(1) b by (cases native) (simp_all add: unpack_uint_def)
  have len: "length raw = 16"
    using i(2) d(2) by (simp add: raw ljust_def)
  have t4: "take 4 raw = idb" using i(2) by (simp add: raw)
  have n4: "raw ! 4 = b" using i(2) b by (simp add: raw nth_append)
  have d8: "drop 8 raw = ljust 8 (take 8 data)" using i(2) b by (simp add: raw)
  have "unat b = nat dl" using ub by (simp add: unat_eq_nat_uint)
  with len t4 n4 d8 i(1) show ?thesis
    by (simp add: unpack_rawframe_def)
qed

text \<open>
  Claim C8 (raw wire round-trip): for every frame with a valid id for its frame format
  and at most eight data bytes, \<^verbatim>\<open>get_rawframe\<close> succeeds and \<^verbatim>\<open>from_rawframe\<close> of its
  result is the frame itself (same id, format and data bytes), on a little-endian and on
  a big-endian host.
\<close>

theorem rawframe_roundtrip:
  assumes "valid_frame f"
  shows "\<exists>raw. get_rawframe native f = Inr raw \<and> from_rawframe native raw = Inr f"
proof -
  let ?fp = "if frame_format f = CAN_FRAMEFORMAT_EXTENDED
             then frame_id f OR CAN_MASK_EXTENDED_FRAME_BIT else frame_id f"
  have len: "length (frame_data f) \<le> 8" and nonneg: "0 \<le> frame_id f"
    using assms by (simp_all add: valid_frame_def)
  have fp: "0 \<le> ?fp \<and> ?fp < 2 ^ 32 \<and> ?fp AND CAN_MASK_ID_ONLY = frame_id f
      \<and> (?fp AND CAN_MASK_EXTENDED_FRAME_BIT \<noteq> 0 \<longleftrightarrow> frame_format f = CAN_FRAMEFORMAT_EXTENDED)"
  proof (cases "frame_format f")
    case CAN_FRAMEFORMAT_STANDARD
    with assms have "frame_id f \<le> MAX_CAN_FRAME_ID_STANDARD"
      by (simp add: valid_frame_def)
    from id_plain [OF nonneg this] CAN_FRAMEFORMAT_STANDARD nonneg show ?thesis by simp
  next
    case CAN_FRAMEFORMAT_EXTENDED
    with assms have "frame_id f \<le> MAX_CAN_FRAME_ID_EXTENDED"
      by (simp add: valid_frame_def)
    from id_or_extended_bit [OF nonneg this] CAN_FRAMEFORMAT_EXTENDED show ?thesis by simp
  qed
  then obtain idb where idb: "pack_uint native 4 ?fp = Inr idb"
    using pack_uint_ok [of ?fp 4 native] by auto
  have "int (length (frame_data f)) < 2 ^ (8 * 1)"
    using len by simp
  then obtain dlb where dlb: "pack_uint native 1 (int (length (frame_data f))) = Inr dlb"
    using pack_uint_ok [of "int (length (frame_data f))" 1 native] by auto
  define raw where "raw = idb @ dlb @ [0, 0, 0] @ ljust 8 (take 8 (ljust 8 (frame_data f)))"
  have g: "get_rawframe native f = Inr raw"
    using idb dlb
    by (simp add: get_rawframe_def pack_rawframe_def raw_def MAX_NUMBER_OF_CAN_DATA_BYTES_def Let_def)
  then have p: "pack_rawframe native ?fp (int (length (frame_data f)))
      (ljust 8 (frame_data f)) = Inr raw"
    by (simp add: get_rawframe_def MAX_NUMBER_OF_CAN_DATA_BYTES_def Let_def)
  have l8: "ljust 8 (take 8 (ljust 8 (frame_data f))) = ljust 8 (frame_data f)"
    using len by (simp add: ljust_def)
  have "from_rawframe native raw
      = CanFrame_init (frame_id f) (frame_data f) (frame_format f)"
    using fp len take_ljust [OF len]
    by (cases "frame_format f")
      (simp_all add: from_rawframe_def unpack_pack_rawframe [OF p] l8 Let_def)
  with CanFrame_init_valid [OF assms] g show ?thesis by simp
qed

theorem rawframe_roundtrip_witness:
  "valid_frame \<lparr>frame_id = 0x123, frame_data = [1, 2, 3], frame_format = CAN_FRAMEFORMAT_EXTENDED\<rparr>
   \<and> (\<exists>raw. get_rawframe LITTLE_ENDIAN
          \<lparr>frame_id = 0x123, frame_data = [1, 2, 3], frame_format = CAN_FRAMEFORMAT_EXTENDED\<rparr> = Inr raw
        \<and> from_rawframe LITTLE_ENDIAN raw
          = Inr \<lparr>frame_id = 0x123, frame_data = [1, 2, 3], frame_format = CAN_FRAMEFORMAT_EXTENDED\<rparr>)"
proof -
  have v: "valid_frame \<lparr>frame_id = 0x123, frame_data = [1, 2, 3],
      frame_format = CAN_FRAMEFORMAT_EXTENDED\<rparr>"
    by (simp add: valid_frame_def MAX_CAN_FRAME_ID_EXTENDED_def)
  from rawframe_roundtrip [OF v, of LITTLE_ENDIAN] v show ?thesis by simp
qed

text \<open>
  Claim C10 (tolerant wire parsing): for every 16-byte buffer whose id field is consistent
  with its extended-frame bit, \<^verbatim>\<open>from_rawframe\<close> succeeds whatever the dlc byte holds;
  the data of the frame is the first \<open>min dlc 8\<close> of the eight data bytes, so it has at
  most eight bytes.
\<close>

theorem from_rawframe_tolerant:
  assumes len: "length rawframe = 16"
    and consistent: "unpack_uint native (take 4 rawframe) AND CAN_MASK_EXTENDED_FRAME_BIT = 0
         \<longrightarrow> unpack_uint native (take 4 rawframe) AND CAN_MASK_ID_ONLY \<le> MAX_CAN_FRAME_ID_STANDARD"
  shows "\<exists>f. from_rawframe native rawframe = Inr f
     \<and> frame_data f = take (min (unat (rawframe ! 4)) 8) (drop 8 rawframe)
     \<and> length (frame_data f) \<le> 8
     \<and> frame_id f = unpack_uint native (take 4 rawframe) AND CAN_MASK_ID_ONLY
     \<and> (frame_format f = CAN_FRAMEFORMAT_EXTENDED
          \<longleftrightarrow> unpack_uint native (take 4 rawframe) AND CAN_MASK_EXTENDED_FRAME_BIT \<noteq> 0)"
proof -
  let ?fp = "unpack_uint native (take 4 rawframe)"
  define fid where "fid = ?fp AND CAN_MASK_ID_ONLY"
  have lo: "0 \<le> fid"
    by (simp add: fid_def CAN_MASK_ID_ONLY_def)
  have hi: "fid \<le> MAX_CAN_FRAME_ID_EXTENDED"
    using AND_upper2 [of CAN_MASK_ID_ONLY ?fp]
    by (simp add: fid_def CAN_MASK_ID_ONLY_def MAX_CAN_FRAME_ID_EXTENDED_def)
  have std: "?fp AND CAN_MASK_EXTENDED_FRAME_BIT = 0 \<Longrightarrow> fid \<le> MAX_CAN_FRAME_ID_STANDARD"
    using consistent by (simp add: fid_def)
  have t: "take (unat (rawframe ! 4)) (drop 8 rawframe)
      = take (min (unat (rawframe ! 4)) 8) (drop 8 rawframe)"
    using len by (simp add: min_def)
  have "from_rawframe native rawframe
      = CanFrame_init fid (take (min (unat (rawframe ! 4)) 8) (drop 8 rawframe))
          (if ?fp AND CAN_MASK_EXTENDED_FRAME_BIT \<noteq> 0
           then CAN_FRAMEFORMAT_EXTENDED else CAN_FRAMEFORMAT_STANDARD)"
    using len by (simp add: from_rawframe_def unpack_rawframe_def Let_def fid_def t)
  also have "\<dots> = Inr \<lparr>frame_id = fid,
        frame_data = take (min (unat (rawframe ! 4)) 8) (drop 8 rawframe),
        frame_format = (if ?fp AND CAN_MASK_EXTENDED_FRAME_BIT \<noteq> 0
           then CAN_FRAMEFORMAT_EXTENDED else CAN_FRAMEFORMAT_STANDARD)\<rparr>"
    using lo hi std len
    by (auto simp: CanFrame_init_def check_frame_id_and_format_def
        MAX_NUMBER_OF_CAN_DATA_BYTES_def)
  finally show ?thesis
    using len by (simp add: fid_def)
qed

theorem from_rawframe_tolerant_witness:
  "\<exists>f. from_rawframe LITTLE_ENDIAN [0x23, 0x01, 0, 0, 0x0F, 0, 0, 0, 1, 2, 3, 4, 5, 6, 7, 8] = Inr f
     \<and> frame_data f = [1, 2, 3, 4, 5, 6, 7, 8] \<and> frame_id f = 0x123
     \<and> frame_format f = CAN_FRAMEFORMAT_STANDARD"
proof -
  let ?raw = "[0x23, 0x01, 0, 0, 0x0F, 0, 0, 0, 1, 2, 3, 4, 5, 6, 7, 8] :: byte list"
  have u: "unpack_uint LITTLE_ENDIAN (take 4 ?raw) = 0x123"
    by (simp add: unpack_uint_def)
  have l: "length ?raw = 16" by simp
  have c: "unpack_uint LITTLE_ENDIAN (take 4 ?raw) AND CAN_MASK_EXTENDED_FRAME_BIT = 0
         \<longrightarrow> unpack_uint LITTLE_ENDIAN (take 4 ?raw) AND CAN_MASK_ID_ONLY \<le> MAX_CAN_FRAME_ID_STANDARD"
    by (simp only: u) (simp add: CAN_MASK_ID_ONLY_def MAX_CAN_FRAME_ID_STANDARD_def)
  have x: "(0x123::int) AND CAN_MASK_EXTENDED_FRAME_BIT = 0" "(0x123::int) AND CAN_MASK_ID_ONLY = 0x123"
    by (simp_all add: CAN_MASK_EXTENDED_FRAME_BIT_def CAN_MASK_ID_ONLY_def)
  from from_rawframe_tolerant [OF l c] obtain f where
    f: "from_rawframe LITTLE_ENDIAN ?raw = Inr f"
      "frame_data f = take (min (unat (?raw ! 4)) 8) (drop 8 ?raw)"
      "frame_id f = unpack_uint LITTLE_ENDIAN (take 4 ?raw) AND CAN_MASK_ID_ONLY"
      "frame_format f = CAN_FRAMEFORMAT_EXTENDED
          \<longleftrightarrow> unpack_uint LITTLE_ENDIAN (take 4 ?raw) AND CAN_MASK_EXTENDED_FRAME_BIT \<noteq> 0"
    by blast
  have "frame_data f = [1, 2, 3, 4, 5, 6, 7, 8]" using f(2) by simp
  moreover have "frame_id f = 0x123" using f(3) by (simp only: u x)
  moreover have "frame_format f = CAN_FRAMEFORMAT_STANDARD"
    using f(4) by (cases "frame_format f") (simp_all only: u x, simp_all)
  ultimately show ?thesis using f(1) by blast
qed

subsection \<open>Sequencing\<close>

lemma and_then_Inr [simp]: "and_then (Inr x) f = f x"
  by (simp add: and_then_def)

lemma and_then_Inl [simp]: "and_then (Inl e) f = Inl e"
  by (simp add: and_then_def)

lemma and_then_eq_Inr:
  "and_then m f = Inr y \<longleftrightarrow> (\<exists>x. m = Inr x \<and> f x = Inr y)"
  by (cases m) simp_all

subsection \<open>Rounding\<close>

lemma ilog2_bounds:
  assumes "0 < x"
  shows "2 powi (ilog2 x) \<le> x" and "x < 2 powi (ilog2 x + 1)"
proof -
  have "2 powi (ilog2 x) \<le> x \<and> x < 2 powi (ilog2 x + 1)"
  proof (cases "1 \<le> x")
    case True
    then have fl: "0 < \<lfloor>x\<rfloor>" by simp
    define b where "b = bitlen \<lfloor>x\<rfloor>"
    from bitlen_bounds [OF fl] have lo: "2 ^ nat (b - 1) \<le> \<lfloor>x\<rfloor>" and hi: "\<lfloor>x\<rfloor> < 2 ^ nat b"
      by (simp_all add: b_def)
    have b1: "1 \<le> b"
      using fl bitlen_eq_zero_iff [of "\<lfloor>x\<rfloor>"] bitlen_nonneg [of "\<lfloor>x\<rfloor>"] by (simp add: b_def)
    have "(2::rat) powi (b - 1) = of_int (2 ^ nat (b - 1))"
      using b1 by (simp add: power_int_nonneg_exp)
    also have "\<dots> \<le> of_int \<lfloor>x\<rfloor>" using lo by (simp only: of_int_le_iff)
    also have "\<dots> \<le> x" by simp
    finally have l: "2 powi (b - 1) \<le> x" .
    have "\<lfloor>x\<rfloor> + 1 \<le> 2 ^ nat b" using hi by simp
    then have "of_int (\<lfloor>x\<rfloor> + 1) \<le> (of_int (2 ^ nat b) :: rat)" by (simp only: of_int_le_iff)
    moreover have "x < of_int (\<lfloor>x\<rfloor> + 1)" by linarith
    ultimately have "x < (of_int (2 ^ nat b) :: rat)" by simp
    also have "(of_int (2 ^ nat b) :: rat) = 2 powi b" using b1 by (simp add: power_int_nonneg_exp)
    finally have h: "x < 2 powi b" .
    from True l h show ?thesis by (simp add: ilog2_def b_def)
  next
    case False
    define y where "y = 1 / x"
    have y1: "1 < y" using False assms by (simp add: y_def)
    define c where "c = \<lceil>y\<rceil>"
    have c2: "2 \<le> c" using y1 unfolding c_def by linarith
    define b where "b = bitlen (c - 1)"
    have pos: "0 < c - 1" using c2 by simp
    from bitlen_bounds [OF pos] have lo: "2 ^ nat (b - 1) \<le> c - 1" and hi: "c - 1 < 2 ^ nat b"
      by (simp_all add: b_def)
    have b1: "1 \<le> b"
      using pos bitlen_eq_zero_iff [of "c - 1"] bitlen_nonneg [of "c - 1"] by (simp add: b_def)
    have "y \<le> of_int c" by (simp add: c_def)
    also have "of_int c \<le> (of_int (2 ^ nat b) :: rat)"
    proof -
      from hi have "c \<le> 2 ^ nat b" by simp
      then show ?thesis by (simp only: of_int_le_iff)
    qed
    also have "(of_int (2 ^ nat b) :: rat) = 2 powi b" using b1 by (simp add: power_int_nonneg_exp)
    finally have yb: "y \<le> 2 powi b" .
    have "(2::rat) powi (b - 1) = of_int (2 ^ nat (b - 1))"
      using b1 by (simp add: power_int_nonneg_exp)
    also have "\<dots> \<le> of_int (c - 1)" using lo by (simp only: of_int_le_iff)
    also have "\<dots> < y" unfolding c_def by linarith
    finally have yl: "2 powi (b - 1) < y" .
    have xi: "x = 1 / y" using assms by (simp add: y_def)
    have p0: "(0::rat) < 2 powi b" "(0::rat) < 2 powi (b - 1)" by simp_all
    have "1 / (2 powi b) \<le> 1 / y"
      using yb y1 by (intro divide_left_mono) simp_all
    then have l: "2 powi (- b) \<le> x"
      by (simp add: xi power_int_minus_divide)
    have "1 / y < 1 / (2 powi (b - 1))"
      using yl p0 y1 by (intro divide_strict_left_mono mult_pos_pos) simp_all
    then have h: "x < 2 powi (- b + 1)"
      using power_int_minus_divide [of "2::rat" "b - 1"] by (simp add: xi)
    from False l h show ?thesis by (simp add: ilog2_def b_def c_def y_def)
  qed
  then show "2 powi (ilog2 x) \<le> x" and "x < 2 powi (ilog2 x + 1)" by simp_all
qed

lemma two_powi_less_imp_less:
  assumes "(2::rat) powi a < 2 powi b"
  shows "a < b"
proof (rule ccontr)
  assume "\<not> a < b"
  then have "b \<le> a" by simp
  then have "(2::rat) powi b \<le> 2 powi a" by (intro power_int_increasing) simp_all
  with assms show False by simp
qed

lemma ilog2_unique:
  assumes "2 powi e \<le> x" "x < 2 powi (e + 1)"
  shows "ilog2 x = e"
proof -
  have x: "0 < x" using assms(1) zero_less_power_int [of "2::rat" e] by linarith
  note b = ilog2_bounds [OF x]
  have "(2::rat) powi e < 2 powi (ilog2 x + 1)" using assms(1) b(2) by linarith
  then have "e < ilog2 x + 1" by (rule two_powi_less_imp_less)
  moreover have "(2::rat) powi (ilog2 x) < 2 powi (e + 1)" using assms(2) b(1) by linarith
  then have "ilog2 x < e + 1" by (rule two_powi_less_imp_less)
  ultimately show ?thesis by simp
qed


lemma round_half_even_of_int [simp]: "round_half_even (of_int m) = m"
  by (simp add: round_half_even_def)

text \<open>A value \<open>k \<sqdot> 2\<^sup>j\<close> with a significand of at most \<open>p\<close> bits is not changed by rounding.\<close>

lemma round_to_format_exact:
  assumes x: "x = of_int k * 2 powi j"
    and k: "\<bar>k\<bar> < 2 ^ p" "k \<noteq> 0"
    and j: "emin - int p + 1 \<le> j"
    and big: "\<bar>x\<bar> < 2 powi (emax + 1)"
    and p: "0 < p"
  shows "round_to_format p emin emax x = Fin x"
proof -
  have x0: "x \<noteq> 0" using x k by simp
  then have ax: "0 < \<bar>x\<bar>" by simp
  define e where "e = max (ilog2 \<bar>x\<bar>) emin"
  define q :: rat where "q = 2 powi (e - int p + 1)"
  have q0: "0 < q" by (simp add: q_def)
  have je: "e - int p + 1 \<le> j"
  proof (cases "ilog2 \<bar>x\<bar> \<le> emin")
    case True
    then show ?thesis using j by (simp add: e_def)
  next
    case False
    then have ee: "e = ilog2 \<bar>x\<bar>" by (simp add: e_def)
    have "2 powi e \<le> \<bar>x\<bar>" using ilog2_bounds(1) [OF ax] by (simp add: ee)
    also have "\<bar>x\<bar> = of_int \<bar>k\<bar> * 2 powi j" by (simp add: x abs_mult)
    also have "\<dots> < of_int (2 ^ p) * 2 powi j"
    proof (rule mult_strict_right_mono)
      show "(of_int \<bar>k\<bar> :: rat) < of_int (2 ^ p)"
        using k(1) by (simp only: of_int_less_iff)
      show "(0::rat) < 2 powi j" by simp
    qed
    also have "\<dots> = 2 powi (int p + j)"
      by (simp add: power_int_add)
    finally have "e < int p + j" by (rule two_powi_less_imp_less)
    then show ?thesis by simp
  qed
  have "x / q = of_int k * 2 powi (j - (e - int p + 1))"
    by (simp add: x q_def power_int_diff)
  also have "\<dots> = of_int k * 2 ^ nat (j - (e - int p + 1))"
    using je by (simp add: power_int_nonneg_exp)
  also have "\<dots> = of_int (k * 2 ^ nat (j - (e - int p + 1)))"
    by simp
  finally have xq: "x / q = of_int (k * 2 ^ nat (j - (e - int p + 1)))" .
  have "of_int (round_half_even (x / q)) * q = (x / q) * q"
    by (simp only: xq round_half_even_of_int)
  also have "\<dots> = x" using q0 by simp
  finally have "of_int (round_half_even (x / q)) * q = x" .
  then show ?thesis
    using x0 big by (simp add: round_to_format_def Let_def e_def [symmetric] q_def [symmetric])
qed

lemma round_double_of_int:
  assumes "\<bar>n\<bar> \<le> 2 ^ 53"
  shows "round_double (of_int n) = Fin (of_int n)"
proof (cases "n = 0")
  case True
  then show ?thesis by (simp add: round_double_def round_to_format_def)
next
  case False
  have big: "\<bar>of_int n :: rat\<bar> < 2 powi (1023 + 1)"
  proof -
    have "\<bar>of_int n :: rat\<bar> = of_int \<bar>n\<bar>" by simp
    also have "\<dots> \<le> of_int (2 ^ 53)" using assms by (simp only: of_int_le_iff)
    also have "\<dots> < (2::rat) powi (1023 + 1)" by simp
    finally show ?thesis .
  qed
  show ?thesis
  proof (cases "\<bar>n\<bar> = 2 ^ 53")
    case True
    then have "n = 2 ^ 53 \<or> n = - (2 ^ 53)" by linarith
    then obtain k :: int where k: "n = k * 2 ^ 53" "\<bar>k\<bar> = 1" by auto
    have "(of_int n :: rat) = of_int k * 2 powi 53" by (simp add: k(1))
    from round_to_format_exact [OF this, of 53 "- 1022" 1023] k(2) big
    show ?thesis by (simp add: round_double_def)
  next
    case False
    with assms have "\<bar>n\<bar> < 2 ^ 53" by simp
    moreover have "(of_int n :: rat) = of_int n * 2 powi 0" by simp
    ultimately show ?thesis
      using round_to_format_exact [of "of_int n" n 0 53 "- 1022" 1023] \<open>n \<noteq> 0\<close> big
      by (simp add: round_double_def)
  qed
qed

text \<open>
  The rounding of a concrete value: \<open>x\<close> lies in the binade of \<open>2\<^sup>e\<close> and \<open>m\<close> is the
  integer nearest to \<open>x / 2\<^sup>e\<^sup>-\<^sup>5\<^sup>2\<close>.
\<close>

lemma round_half_even_eqI:
  assumes "\<bar>z - of_int m\<bar> < 1 / 2"
  shows "round_half_even z = m"
proof (cases "of_int m \<le> z")
  case True
  with assms have "of_int m \<le> z" "z < of_int m + 1" by linarith+
  then have f: "\<lfloor>z\<rfloor> = m" by linarith
  with assms True show ?thesis
    by (simp add: round_half_even_def Let_def)
next
  case False
  with assms have "of_int (m - 1) \<le> z" "z < of_int (m - 1) + 1"
    unfolding of_int_diff of_int_1 by linarith+
  then have f: "\<lfloor>z\<rfloor> = m - 1" by linarith
  have "1 / 2 < z - of_int (m - 1)" using assms False unfolding of_int_diff of_int_1 by linarith
  then show ?thesis
    by (simp add: round_half_even_def Let_def f)
qed

lemma round_double_eqI:
  assumes lo: "2 powi e \<le> \<bar>x\<bar>" and hi: "\<bar>x\<bar> < 2 powi (e + 1)"
    and e: "- 1022 \<le> e" "e \<le> 1022"
    and m: "\<bar>x / 2 powi (e - 52) - of_int m\<bar> < 1 / 2"
  shows "round_double x = Fin (of_int m * 2 powi (e - 52))"
proof -
  have pe: "(0::rat) < 2 powi e" by simp
  have x0: "x \<noteq> 0"
  proof
    assume "x = 0"
    then have "\<bar>x\<bar> = 0" by simp
    with lo pe show False by linarith
  qed
  have il: "ilog2 \<bar>x\<bar> = e" using lo hi by (rule ilog2_unique)
  have me: "max e (- 1022) = e" using e by simp
  define q :: rat where "q = 2 powi (e - 52)"
  have q0: "0 < q" by (simp add: q_def)
  have r: "round_half_even (x / q) = m" using m unfolding q_def by (rule round_half_even_eqI)
  have "e = (e - 52) + 52" by simp
  then have "(2::rat) powi e = 2 powi ((e - 52) + 52)" by (simp only:)
  also have "\<dots> = 2 powi (e - 52) * 2 powi 52" by (rule power_int_add) simp
  finally have A: "2 powi e = 2 ^ 52 * q" by (simp add: q_def)
  have "e + 1 = (e - 52) + 53" by simp
  then have "(2::rat) powi (e + 1) = 2 powi ((e - 52) + 53)" by (simp only:)
  also have "\<dots> = 2 powi (e - 52) * 2 powi 53" by (rule power_int_add) simp
  finally have B: "2 powi (e + 1) = 2 ^ 53 * q" by (simp add: q_def)
  have axq: "\<bar>x / q\<bar> = \<bar>x\<bar> / q" using q0 by simp
  have "\<bar>x\<bar> / q < (2 ^ 53 * q) / q" using hi q0 unfolding B by (rule divide_strict_right_mono)
  then have xq: "\<bar>x / q\<bar> < 2 ^ 53" using q0 by (simp add: axq)
  have "(2 ^ 52 * q) / q \<le> \<bar>x\<bar> / q" using lo q0 unfolding A by (intro divide_right_mono) simp_all
  then have xq2: "2 ^ 52 \<le> \<bar>x / q\<bar>" using q0 by (simp add: axq)
  have m': "\<bar>x / q - of_int m\<bar> < 1 / 2" using m by (simp add: q_def)
  have "\<bar>of_int m :: rat\<bar> \<le> \<bar>x / q\<bar> + \<bar>x / q - of_int m\<bar>" by linarith
  with xq m' have "\<bar>of_int m :: rat\<bar> < 2 ^ 53 + 1" by linarith
  then have "(of_int \<bar>m\<bar> :: rat) < of_int (2 ^ 53 + 1)" by simp
  then have "\<bar>m\<bar> < 2 ^ 53 + 1" by (simp only: of_int_less_iff)
  then have mb: "\<bar>m\<bar> \<le> 2 ^ 53" by simp
  have "\<bar>of_int m :: rat\<bar> \<ge> \<bar>x / q\<bar> - \<bar>x / q - of_int m\<bar>" by linarith
  moreover have "(1::rat) \<le> 2 ^ 52" by simp
  ultimately have "\<bar>of_int m :: rat\<bar> > 0" using xq2 m' by linarith
  then have m0: "m \<noteq> 0" by auto
  have "\<bar>of_int m * q\<bar> = of_int \<bar>m\<bar> * q" using q0 by (simp add: abs_mult)
  also have "\<dots> \<le> of_int (2 ^ 53) * q"
  proof (rule mult_right_mono)
    show "(of_int \<bar>m\<bar> :: rat) \<le> of_int (2 ^ 53)" using mb by (simp only: of_int_le_iff)
    show "0 \<le> q" using q0 by simp
  qed
  also have "\<dots> = 2 powi (e + 1)" by (simp add: B)
  also have "\<dots> < 2 powi 1024" using e by (intro power_int_strict_increasing) simp_all
  finally have big: "\<not> 2 powi (1023 + 1) \<le> \<bar>of_int m * q\<bar>" by simp
  have y0: "of_int m * q \<noteq> 0" using m0 q0 by simp
  show ?thesis
    using x0 big y0 r
    by (simp add: round_double_def round_to_format_def Let_def il me q_def [symmetric])
qed

lemma round_half_even_error: "\<bar>z - of_int (round_half_even z)\<bar> \<le> 1 / 2"
proof -
  define d where "d = z - of_int \<lfloor>z\<rfloor>"
  have d: "0 \<le> d" "d < 1" unfolding d_def by linarith+
  have z: "z = of_int \<lfloor>z\<rfloor> + d" by (simp add: d_def)
  consider "d < 1 / 2" | "1 / 2 < d" | "d = 1 / 2" by linarith
  then show ?thesis
  proof cases
    case 1
    then have "round_half_even z = \<lfloor>z\<rfloor>"
      by (simp add: round_half_even_def Let_def d_def)
    with 1 d show ?thesis using z by simp
  next
    case 2
    then have "round_half_even z = \<lfloor>z\<rfloor> + 1"
      by (simp add: round_half_even_def Let_def d_def)
    with 2 d show ?thesis using z by simp
  next
    case 3
    then have "round_half_even z = \<lfloor>z\<rfloor> \<or> round_half_even z = \<lfloor>z\<rfloor> + 1"
      by (simp add: round_half_even_def Let_def d_def)
    with 3 show ?thesis using z by auto
  qed
qed

text \<open>
  Rounding in the range of the normal numbers: the result is finite, it is \<open>m \<sqdot> 2\<^sup>e\<^sup>-\<^sup>5\<^sup>2\<close>
  for an integer \<open>m\<close> of at most 54 bits, and it differs from \<open>x\<close> by at most half a unit
  in the last place.
\<close>

lemma round_double_normal:
  assumes lo: "2 powi (- 1022) \<le> \<bar>x\<bar>" and hi: "\<bar>x\<bar> < 2 powi 1023"
  obtains m where "round_double x = Fin (of_int m * 2 powi (ilog2 \<bar>x\<bar> - 52))"
    and "\<bar>x - of_int m * 2 powi (ilog2 \<bar>x\<bar> - 52)\<bar> \<le> 2 powi (ilog2 \<bar>x\<bar> - 53)"
    and "\<bar>m\<bar> \<le> 2 ^ 53" and "m \<noteq> 0"
proof -
  have p0: "(0::rat) < 2 powi (- 1022)" by simp
  have ax: "0 < \<bar>x\<bar>" using lo p0 by linarith
  then have x0: "x \<noteq> 0" by auto
  define e where "e = ilog2 \<bar>x\<bar>"
  note b = ilog2_bounds [OF ax, folded e_def]
  have "(2::rat) powi (- 1022) < 2 powi (e + 1)" using lo b(2) by linarith
  then have e1: "- 1022 < e + 1" by (rule two_powi_less_imp_less)
  have "(2::rat) powi e < 2 powi 1023" using hi b(1) by linarith
  then have e2: "e < 1023" by (rule two_powi_less_imp_less)
  have me: "max e (- 1022) = e" using e1 by simp
  define q :: rat where "q = 2 powi (e - 52)"
  have q0: "0 < q" by (simp add: q_def)
  define m where "m = round_half_even (x / q)"
  have "e = (e - 52) + 52" by simp
  then have "(2::rat) powi e = 2 powi ((e - 52) + 52)" by (simp only:)
  also have "\<dots> = 2 powi (e - 52) * 2 powi 52" by (rule power_int_add) simp
  finally have A: "2 powi e = 2 ^ 52 * q" by (simp add: q_def)
  have "e + 1 = (e - 52) + 53" by simp
  then have "(2::rat) powi (e + 1) = 2 powi ((e - 52) + 53)" by (simp only:)
  also have "\<dots> = 2 powi (e - 52) * 2 powi 53" by (rule power_int_add) simp
  finally have B: "2 powi (e + 1) = 2 ^ 53 * q" by (simp add: q_def)
  have "e - 52 = (e - 53) + 1" by simp
  then have "(2::rat) powi (e - 52) = 2 powi ((e - 53) + 1)" by (simp only:)
  also have "\<dots> = 2 powi (e - 53) * 2 powi 1" by (rule power_int_add) simp
  finally have C: "2 powi (e - 53) = q / 2" by (simp add: q_def)
  have axq: "\<bar>x / q\<bar> = \<bar>x\<bar> / q" using q0 by simp
  have "\<bar>x\<bar> / q < (2 ^ 53 * q) / q" using b(2) q0 unfolding B by (rule divide_strict_right_mono)
  then have xq: "\<bar>x / q\<bar> < 2 ^ 53" using q0 by (simp add: axq)
  have "(2 ^ 52 * q) / q \<le> \<bar>x\<bar> / q" using b(1) q0 unfolding A by (intro divide_right_mono) simp_all
  then have xq2: "2 ^ 52 \<le> \<bar>x / q\<bar>" using q0 by (simp add: axq)
  have m': "\<bar>x / q - of_int m\<bar> \<le> 1 / 2" unfolding m_def by (rule round_half_even_error)
  have "\<bar>of_int m :: rat\<bar> \<le> \<bar>x / q\<bar> + \<bar>x / q - of_int m\<bar>" by linarith
  with xq m' have "\<bar>of_int m :: rat\<bar> < 2 ^ 53 + 1" by linarith
  then have "(of_int \<bar>m\<bar> :: rat) < of_int (2 ^ 53 + 1)" by simp
  then have "\<bar>m\<bar> < 2 ^ 53 + 1" by (simp only: of_int_less_iff)
  then have mb: "\<bar>m\<bar> \<le> 2 ^ 53" by simp
  have "\<bar>of_int m :: rat\<bar> \<ge> \<bar>x / q\<bar> - \<bar>x / q - of_int m\<bar>" by linarith
  moreover have "(1::rat) \<le> 2 ^ 52" by simp
  ultimately have "\<bar>of_int m :: rat\<bar> > 0" using xq2 m' by linarith
  then have m0: "m \<noteq> 0" by auto
  have "\<bar>of_int m * q\<bar> = of_int \<bar>m\<bar> * q" using q0 by (simp add: abs_mult)
  also have "\<dots> \<le> of_int (2 ^ 53) * q"
  proof (rule mult_right_mono)
    show "(of_int \<bar>m\<bar> :: rat) \<le> of_int (2 ^ 53)" using mb by (simp only: of_int_le_iff)
    show "0 \<le> q" using q0 by simp
  qed
  also have "\<dots> = 2 powi (e + 1)" by (simp add: B)
  also have "\<dots> < 2 powi 1024" using e2 by (intro power_int_strict_increasing) simp_all
  finally have big: "\<not> 2 powi (1023 + 1) \<le> \<bar>of_int m * q\<bar>" by simp
  have y0: "of_int m * q \<noteq> 0" using m0 q0 by simp
  have r: "round_double x = Fin (of_int m * q)"
    using x0 big y0
    by (simp add: round_double_def round_to_format_def Let_def e_def [symmetric] me
        q_def [symmetric] m_def [symmetric])
  have "x - of_int m * q = (x / q - of_int m) * q" using q0 by (simp add: field_simps)
  then have "\<bar>x - of_int m * q\<bar> = \<bar>x / q - of_int m\<bar> * q" using q0 by (simp add: abs_mult)
  also have "\<dots> \<le> (1 / 2) * q" using m' q0 by (intro mult_right_mono) simp_all
  finally have err: "\<bar>x - of_int m * q\<bar> \<le> 2 powi (e - 53)" by (simp add: C)
  show thesis
    using that [of m] r err mb m0 by (simp add: q_def e_def)
qed

lemma float_of_int_finite:
  assumes "\<bar>n\<bar> < 2 ^ 1023"
  obtains y where "float_of_int n = Inr (Fin y)"
proof (cases "n = 0")
  case True
  then have "float_of_int n = Inr (Fin 0)"
    by (simp add: float_of_int_def round_double_def round_to_format_def)
  then show ?thesis by (rule that)
next
  case False
  then have "1 \<le> \<bar>n\<bar>" by simp
  then have "(of_int 1 :: rat) \<le> of_int \<bar>n\<bar>" by (simp only: of_int_le_iff)
  then have one: "1 \<le> \<bar>of_int n :: rat\<bar>" by simp
  have "(2::rat) powi (- 1022) \<le> 2 powi 0" by (rule power_int_increasing) simp_all
  then have lo: "2 powi (- 1022) \<le> \<bar>of_int n :: rat\<bar>" using one by simp
  have "(of_int \<bar>n\<bar> :: rat) < of_int (2 ^ 1023)" using assms by (simp only: of_int_less_iff)
  then have hi: "\<bar>of_int n :: rat\<bar> < 2 powi 1023" by simp
  from round_double_normal [OF lo hi] obtain m where
    "round_double (of_int n) = Fin (of_int m * 2 powi (ilog2 \<bar>of_int n\<bar> - 52))"
    by blast
  then have "float_of_int n = Inr (Fin (of_int m * 2 powi (ilog2 \<bar>of_int n\<bar> - 52)))"
    by (simp add: float_of_int_def)
  then show ?thesis by (rule that)
qed

subsection \<open>Values and limits\<close>

lemma float_of_int_small: "\<bar>n\<bar> \<le> 2 ^ 53 \<Longrightarrow> float_of_int n = Inr (Fin (of_int n))"
  by (simp add: float_of_int_def round_double_of_int)

lemma fmul_int:
  "\<bar>a * b\<bar> \<le> 2 ^ 53 \<Longrightarrow> a * b \<noteq> 0 \<or> (0 \<le> a \<and> 0 \<le> b)
     \<Longrightarrow> fmul (Fin (of_int a)) (Fin (of_int b)) = Fin (of_int (a * b))"
  using round_double_of_int [of "a * b"] by (auto simp: fmul_def signed_zero_def)

lemma fadd_int:
  "\<bar>a + b\<bar> \<le> 2 ^ 53 \<Longrightarrow> fadd (Fin (of_int a)) (Fin (of_int b)) = Fin (of_int (a + b))"
  using round_double_of_int [of "a + b"] by (auto simp: fadd_def signed_zero_def simp flip: of_int_add)

lemma fsub_int:
  "\<bar>a - b\<bar> \<le> 2 ^ 53 \<Longrightarrow> fsub (Fin (of_int a)) (Fin (of_int b)) = Fin (of_int (a - b))"
proof -
  assume b: "\<bar>a - b\<bar> \<le> 2 ^ 53"
  have v: "fval (Fin (of_int a)) + fval (fneg (Fin (of_int b))) = of_int (a - b)"
    by simp
  have nz: "Fin (of_int a) \<noteq> NZero" by simp
  have f: "is_finite (fneg (Fin (rat_of_int b)))" "fneg (Fin (rat_of_int b)) \<noteq> NaN"
    by simp_all
  have "fsub (Fin (of_int a)) (Fin (of_int b))
      = (if (of_int (a - b) :: rat) = 0 then Fin 0 else round_double (of_int (a - b)))"
    unfolding fsub_def fadd_def v using f by (simp add: signed_zero_def)
  then show ?thesis
    using round_double_of_int [OF b] by auto
qed

lemma fdiv_int_one:
  "\<bar>a\<bar> \<le> 2 ^ 53 \<Longrightarrow> fdiv (Fin (of_int a)) (Fin 1) = Inr (Fin (of_int a))"
  using round_double_of_int [of a] by (auto simp: fdiv_def signed_zero_def)


lemma plain_signal_simps [simp]:
  "signalname (plain_signal sname start bits order stype maxv) = sname"
  "startbit (plain_signal sname start bits order stype maxv) = start"
  "numberofbits (plain_signal sname start bits order stype maxv) = bits"
  "scalingfactor (plain_signal sname start bits order stype maxv) = Fin 1"
  "valueoffset (plain_signal sname start bits order stype maxv) = Fin 0"
  "defaultvalue (plain_signal sname start bits order stype maxv) = Some (PyInt 0)"
  "minvalue (plain_signal sname start bits order stype maxv) = None"
  "maxvalue (plain_signal sname start bits order stype maxv) = maxv"
  "endianness (plain_signal sname start bits order stype maxv) = order"
  "signaltype (plain_signal sname start bits order stype maxv) = stype"
  by (simp_all add: plain_signal_def)

text \<open>Integer values in a signal with scaling factor 1 and offset 0.\<close>

lemma py_sub_int_zero:
  "\<bar>v\<bar> \<le> 2 ^ 53 \<Longrightarrow> py_sub (PyInt v) (PyFloat (Fin 0)) = Inr (PyFloat (Fin (of_int v)))"
  using fsub_int [of v 0] by (simp add: float_of_int_small)

lemma py_truediv_int_one:
  "\<bar>v\<bar> \<le> 2 ^ 53 \<Longrightarrow> py_truediv (PyFloat (Fin (of_int v))) (PyFloat (Fin 1)) = Inr (PyFloat (Fin (of_int v)))"
  using fdiv_int_one [of v] by simp

lemma truncate_rat_of_int [simp]: "truncate_rat (of_int v) = v"
  by (simp add: truncate_rat_def)

lemma write_physical_value_unsigned:
  assumes "scalingfactor S = Fin 1" "valueoffset S = Fin 0"
    "signaltype S = CAN_SIGNALTYPE_UNSIGNED" "\<bar>v\<bar> \<le> 2 ^ 53"
  shows "write_physical_value f S (PyInt v) = write_bus_value f S v"
  using assms
  by (simp add: write_physical_value_def py_sub_int_zero py_truediv_int_one
      del: py_sub.simps py_truediv.simps)


lemma possible_values_unsigned:
  assumes "scalingfactor S = Fin 1" "valueoffset S = Fin 0"
    "signaltype S = CAN_SIGNALTYPE_UNSIGNED" "0 \<le> numberofbits S" "numberofbits S \<le> 53"
  shows "get_minimum_possible_value S = Inr (PyFloat (Fin 0))"
    and "get_maximum_possible_value S = Inr (PyFloat (Fin (of_int (2 ^ nat (numberofbits S) - 1))))"
proof -
  show "get_minimum_possible_value S = Inr (PyFloat (Fin 0))"
    using assms fmul_int [of 0 1] fadd_int [of 0 0] float_of_int_small [of 0]
    by (simp add: get_minimum_possible_value_def)
  have "(2::int) ^ nat (numberofbits S) \<le> 2 ^ 53"
    using assms by (intro power_increasing) simp_all
  then have b: "\<bar>(2::int) ^ nat (numberofbits S) - 1\<bar> \<le> 2 ^ 53" by simp
  show "get_maximum_possible_value S = Inr (PyFloat (Fin (of_int (2 ^ nat (numberofbits S) - 1))))"
    using assms b fmul_int [of "2 ^ nat (numberofbits S) - 1" 1]
      fadd_int [of "2 ^ nat (numberofbits S) - 1" 0]
      float_of_int_small [of "2 ^ nat (numberofbits S) - 1"]
    by (simp add: get_maximum_possible_value_def)
qed

text \<open>
  The two tests of \<^verbatim>\<open>set_signalvalue\<close>: a payload shorter than the minimum dlc of the
  signal, and a value that compares below the one bound or above the other.
\<close>

lemma set_signalvalue_too_short:
  "get_minimum_dlc S > int (length (frame_data f)) \<Longrightarrow> set_signalvalue f S v = Inl CanException"
  by (simp add: set_signalvalue_def)

lemma set_signalvalue_compares_outside:
  assumes "get_minimum_dlc S \<le> int (length (frame_data f))"
    and "get_minimum_possible_value S = Inr lower" "get_maximum_possible_value S = Inr upper"
    and "py_lt pv lower \<or> py_gt pv upper"
  shows "set_signalvalue f S (Some pv) = Inl CanException"
  using assms by (auto simp: set_signalvalue_def)

lemma write_bus_value_1200:
  "write_bus_value (zero_frame 1 8) testsignal3_max 1200
     = Inr (zero_frame 1 8\<lparr>frame_data := [0, 0, 0, 176, 4, 0, 0, 0]\<rparr>)"
  by code_simp

lemma round_double_2_64: "round_double (2 ^ 64) = Fin (2 ^ 64)"
proof -
  have "round_double (2 ^ 64) = Fin (of_int (2 ^ 52) * 2 powi (64 - 52))"
    by (rule round_double_eqI) (simp_all add: power_int_def)
  then show ?thesis by (simp add: power_int_def)
qed

lemma round_double_2_64_minus_1: "round_double (2 ^ 64 - 1) = Fin (2 ^ 64)"
proof -
  have "round_double (2 ^ 64 - 1) = Fin (of_int (2 ^ 53) * 2 powi (63 - 52))"
    by (rule round_double_eqI) (simp_all add: power_int_def)
  then show ?thesis by (simp add: power_int_def)
qed

lemma possible_values_wide:
  assumes "scalingfactor S = Fin 1" "valueoffset S = Fin 0"
    "signaltype S = CAN_SIGNALTYPE_UNSIGNED" "numberofbits S = 64"
  shows "get_minimum_possible_value S = Inr (PyFloat (Fin 0))"
    and "get_maximum_possible_value S = Inr (PyFloat (Fin (2 ^ 64)))"
proof -
  show "get_minimum_possible_value S = Inr (PyFloat (Fin 0))"
    using assms fmul_int [of 0 1] fadd_int [of 0 0] float_of_int_small [of 0]
    by (simp add: get_minimum_possible_value_def)
  have f: "float_of_int (2 ^ 64 - 1) = Inr (Fin (2 ^ 64))"
    using round_double_2_64_minus_1 by (simp add: float_of_int_def)
  have m: "fmul (Fin (2 ^ 64)) (Fin 1) = Fin (2 ^ 64)"
    using round_double_2_64 by (simp add: fmul_def)
  have a: "fadd (Fin (2 ^ 64)) (Fin 0) = Fin (2 ^ 64)"
    using round_double_2_64 by (simp add: fadd_def)
  show "get_maximum_possible_value S = Inr (PyFloat (Fin (2 ^ 64)))"
    using assms f m a by (simp add: get_maximum_possible_value_def)
qed

lemma write_bus_value_wide_1200:
  "write_bus_value (zero_frame 1 8) wide_signal_max 1200
     = Inr (zero_frame 1 8\<lparr>frame_data := [176, 4, 0, 0, 0, 0, 0, 0]\<rparr>)"
  by code_simp


lemma range_check_unsigned:
  assumes "scalingfactor S = Fin 1" "valueoffset S = Fin 0"
    "signaltype S = CAN_SIGNALTYPE_UNSIGNED" "0 \<le> numberofbits S" "numberofbits S \<le> 53"
    "0 \<le> v" "v \<le> 2 ^ nat (numberofbits S) - 1"
  shows "check_signal_value_range S (Some (PyInt v)) = Inr ()"
proof -
  have "(2::int) ^ nat (numberofbits S) \<le> 2 ^ 53"
    using assms(4,5) by (intro power_increasing) simp_all
  then have b: "\<bar>v\<bar> \<le> 2 ^ 53" using assms(6,7) by simp
  have "rat_of_int v \<le> rat_of_int (2 ^ nat (numberofbits S) - 1)"
    using assms(7) by (simp only: of_int_le_iff)
  then have r: "\<not> 2 ^ nat (numberofbits S) - 1 < rat_of_int v" by simp
  show ?thesis
    using possible_values_unsigned [OF assms(1-5)] float_of_int_small [OF b] assms(6) r
    by (simp add: check_signal_value_range_def py_lt_def py_gt_def)
qed

lemma init_testsignal3_max:
  "CanSignalDefinition_init ''testsignal3'' 24 16 (PyInt 1) (PyInt 0) None [] [] None
     (Some (PyInt 1200)) LITTLE_ENDIAN CAN_SIGNALTYPE_UNSIGNED = Inr testsignal3_max"
proof -
  let ?S = "\<lparr>signalname = ''testsignal3'', startbit = 24, numberofbits = 16,
      scalingfactor = Fin 1, valueoffset = Fin 0, defaultvalue = None, unit = [],
      comment = [], minvalue = None, maxvalue = None, endianness = LITTLE_ENDIAN,
      signaltype = CAN_SIGNALTYPE_UNSIGNED\<rparr>"
  have c: "check_signal_value_range ?S (Some (PyInt 1200)) = Inr ()"
    "check_signal_value_range ?S (Some (PyInt 0)) = Inr ()"
    by (rule range_check_unsigned; simp)+
  have n: "check_signal_value_range ?S None = Inr ()"
    by (simp add: check_signal_value_range_def)
  have f: "float_of_int 1 = Inr (Fin 1)" "float_of_int 0 = Inr (Fin 0)"
    using float_of_int_small [of 1] float_of_int_small [of 0] by simp_all
  show ?thesis
    by (simp add: CanSignalDefinition_init_def check_numberofbits_def BITS_IN_FULL_DATA_def
        f py_le_def py_lt_def py_eq_def c n testsignal3_max_def plain_signal_def)
qed

lemma init_wide_signal_max:
  "CanSignalDefinition_init ''widesignal'' 0 64 (PyInt 1) (PyInt 0) None [] [] None
     (Some (PyInt 1200)) LITTLE_ENDIAN CAN_SIGNALTYPE_UNSIGNED = Inr wide_signal_max"
proof -
  let ?S = "\<lparr>signalname = ''widesignal'', startbit = 0, numberofbits = 64,
      scalingfactor = Fin 1, valueoffset = Fin 0, defaultvalue = None, unit = [],
      comment = [], minvalue = None, maxvalue = None, endianness = LITTLE_ENDIAN,
      signaltype = CAN_SIGNALTYPE_UNSIGNED\<rparr>"
  have p: "get_minimum_possible_value ?S = Inr (PyFloat (Fin 0))"
    "get_maximum_possible_value ?S = Inr (PyFloat (Fin (2 ^ 64)))"
    by (rule possible_values_wide; simp)+
  have f: "float_of_int 1 = Inr (Fin 1)" "float_of_int 0 = Inr (Fin 0)"
    "float_of_int 1200 = Inr (Fin 1200)"
    using float_of_int_small [of 1] float_of_int_small [of 0] float_of_int_small [of 1200]
    by simp_all
  have c: "check_signal_value_range ?S (Some (PyInt 1200)) = Inr ()"
    "check_signal_value_range ?S (Some (PyInt 0)) = Inr ()"
    using p f by (simp_all add: check_signal_value_range_def py_lt_def py_gt_def)
  have n: "check_signal_value_range ?S None = Inr ()"
    by (simp add: check_signal_value_range_def)
  show ?thesis
    by (simp add: CanSignalDefinition_init_def check_numberofbits_def BITS_IN_FULL_DATA_def
        f py_le_def py_lt_def py_eq_def c n wide_signal_max_def plain_signal_def)
qed

text \<open>
  C7. \<^verbatim>\<open>set_signalvalue\<close> tests the value with \<^verbatim>\<open><\<close> and \<^verbatim>\<open>>\<close> against bounds that are
  floats. Both comparisons are false for a NaN, and the float of the largest bus value
  \<open>2\<^sup>6\<^sup>4 - 1\<close> of a 64-bit unsigned signal is \<open>2\<^sup>6\<^sup>4\<close>. So on signals with
  \<^verbatim>\<open>maxvalue=1200\<close> that the constructor accepts, a NaN and the value \<open>2\<^sup>6\<^sup>4\<close>, which are
  outside the range of the signal, raise nothing: 1200 is written.
\<close>

theorem set_signalvalue_silent_clamp:
  "CanSignalDefinition_init ''testsignal3'' 24 16 (PyInt 1) (PyInt 0) None [] [] None
       (Some (PyInt 1200)) LITTLE_ENDIAN CAN_SIGNALTYPE_UNSIGNED = Inr testsignal3_max
   \<and> set_signalvalue (zero_frame 1 8) testsignal3_max (Some (PyFloat NaN))
       = Inr (zero_frame 1 8\<lparr>frame_data := [0, 0, 0, 176, 4, 0, 0, 0]\<rparr>)
   \<and> CanSignalDefinition_init ''widesignal'' 0 64 (PyInt 1) (PyInt 0) None [] [] None
       (Some (PyInt 1200)) LITTLE_ENDIAN CAN_SIGNALTYPE_UNSIGNED = Inr wide_signal_max
   \<and> get_maximum_possible_value wide_signal_max = Inr (PyFloat (Fin (2 ^ 64)))
   \<and> set_signalvalue (zero_frame 1 8) wide_signal_max (Some (PyInt (2 ^ 64)))
       = Inr (zero_frame 1 8\<lparr>frame_data := [176, 4, 0, 0, 0, 0, 0, 0]\<rparr>)"
proof -
  have len: "length (frame_data (zero_frame 1 8)) = 8" by (simp add: zero_frame_def)
  have d3: "get_minimum_dlc testsignal3_max = 5" and dw: "get_minimum_dlc wide_signal_max = 8"
    by (simp_all add: get_minimum_dlc_def testsignal3_max_def wide_signal_max_def
        BITS_PER_BYTE_def)
  have p3: "get_minimum_possible_value testsignal3_max = Inr (PyFloat (Fin 0))"
    "get_maximum_possible_value testsignal3_max = Inr (PyFloat (Fin 65535))"
    using possible_values_unsigned [of testsignal3_max] by (simp_all add: testsignal3_max_def)
  have pw: "get_minimum_possible_value wide_signal_max = Inr (PyFloat (Fin 0))"
    "get_maximum_possible_value wide_signal_max = Inr (PyFloat (Fin (2 ^ 64)))"
    by (rule possible_values_wide; simp add: wide_signal_max_def)+
  have l3: "limit_to_min_max testsignal3_max (PyFloat NaN) = PyInt 1200"
    by (simp add: limit_to_min_max_def testsignal3_max_def py_min_def py_lt_def)
  have lw: "limit_to_min_max wide_signal_max (PyInt (2 ^ 64)) = PyInt 1200"
    by (simp add: limit_to_min_max_def wide_signal_max_def py_min_def py_lt_def)
  have w3: "write_physical_value (zero_frame 1 8) testsignal3_max (PyInt 1200)
      = Inr (zero_frame 1 8\<lparr>frame_data := [0, 0, 0, 176, 4, 0, 0, 0]\<rparr>)"
    using write_physical_value_unsigned [of testsignal3_max 1200 "zero_frame 1 8"]
      write_bus_value_1200
    by (simp add: testsignal3_max_def)
  have ww: "write_physical_value (zero_frame 1 8) wide_signal_max (PyInt 1200)
      = Inr (zero_frame 1 8\<lparr>frame_data := [176, 4, 0, 0, 0, 0, 0, 0]\<rparr>)"
    using write_physical_value_unsigned [of wide_signal_max 1200 "zero_frame 1 8"]
      write_bus_value_wide_1200
    by (simp add: wide_signal_max_def)
  have s3: "set_signalvalue (zero_frame 1 8) testsignal3_max (Some (PyFloat NaN))
       = Inr (zero_frame 1 8\<lparr>frame_data := [0, 0, 0, 176, 4, 0, 0, 0]\<rparr>)"
    by (simp add: set_signalvalue_def len d3 p3 l3 w3 py_lt_def py_gt_def)
  have sw: "set_signalvalue (zero_frame 1 8) wide_signal_max (Some (PyInt (2 ^ 64)))
       = Inr (zero_frame 1 8\<lparr>frame_data := [176, 4, 0, 0, 0, 0, 0, 0]\<rparr>)"
    by (simp add: set_signalvalue_def len dw pw lw [simplified] ww py_lt_def py_gt_def)
  show ?thesis using init_testsignal3_max s3 init_wide_signal_max pw(2) sw by (intro conjI)
qed

subsection \<open>The broadcast manager\<close>

lemma split_seconds_zero: "split_seconds_to_full_and_part (PyInt 0) = Inr (0, 0)"
  by (simp add: split_seconds_to_full_and_part_def py_lt_def MICROSECONDS_PER_SECOND_def)

lemma round_1001: "round_double (1001 / 1000) = Fin (2254051613498933 / 2251799813685248)"
  using round_double_eqI [of 0 "1001 / 1000" 4508103226997866]
  by simp

lemma round_1001_part:
  "round_double (2251799813685 / 2251799813685248) = Fin (2251799813685 / 2251799813685248)"
  using round_double_eqI [of "- 10" "2251799813685 / 2251799813685248" 4611686018426880]
  by (simp add: power_int_minus_divide)

lemma round_1001_useconds:
  "round_double (35184372088828125 / 35184372088832) = Fin (8796093022207031 / 8796093022208)"
  using round_double_eqI [of 9 "35184372088828125 / 35184372088832" 8796093022207031]
  by (simp add: power_int_minus_divide)

lemma split_seconds_1001:
  "split_seconds_to_full_and_part (PyFloat (Fin (2254051613498933 / 2251799813685248))) = Inr (1, 999)"
proof -
  let ?x = "Fin (2254051613498933 / 2251799813685248)"
  have f: "math_floor (PyFloat ?x) = Inr 1" by (simp add: floor_eq_iff)
  have one: "float_of_int 1 = Inr (Fin 1)"
    using float_of_int_small [of 1] by simp
  have s: "py_sub (PyFloat ?x) (PyInt 1) = Inr (PyFloat (Fin (2251799813685 / 2251799813685248)))"
    by (simp add: one fsub_def fadd_def round_1001_part)
  have million: "float_of_int 1000000 = Inr (Fin 1000000)"
    using float_of_int_small [of 1000000] by simp
  have m: "py_mul (PyFloat (Fin (2251799813685 / 2251799813685248))) (PyInt 1000000)
      = Inr (PyFloat (Fin (8796093022207031 / 8796093022208)))"
    by (simp add: million fmul_def round_1001_useconds)
  have i: "py_int (PyFloat (Fin (8796093022207031 / 8796093022208))) = Inr 999"
    by (simp add: truncate_rat_def floor_eq_iff)
  show ?thesis
    by (simp add: split_seconds_to_full_and_part_def py_lt_def f s m i MICROSECONDS_PER_SECOND_def
        del: py_sub.simps py_mul.simps py_int.simps math_floor.simps)
qed

text \<open>
  Claim C3, as stated, fails at 1001 ms: the header carries 999 microseconds, since
  \<^verbatim>\<open>split_seconds_to_full_and_part\<close> cuts the float product with \<^verbatim>\<open>int\<close>, where the rounded
  value is 1000.
\<close>

theorem bcm_interval_counterexample:
  "build_bcm_header \<lparr>native_order = LITTLE_ENDIAN, long_size = 8\<rparr>
       CAN_BCM_TX_SETUP 3 (PyInt 1001) 7 CAN_FRAMEFORMAT_STANDARD 1
     = Inr \<lparr>opcode = CAN_BCM_TX_SETUP, flags = 3, ival1_count = 0,
            ival1_seconds = 0, ival1_useconds = 0, ival2_seconds = 1, ival2_useconds = 999,
            frame_id_std_ext = 7, number_of_bcm_frames = 1\<rparr>
   \<and> interval_as_specified 1001 = (1, 1000)"
proof -
  have d: "py_truediv (PyInt 1001) (PyInt MILLISECONDS_PER_SECOND)
      = Inr (PyFloat (Fin (2254051613498933 / 2251799813685248)))"
    by (simp add: MILLISECONDS_PER_SECOND_def round_1001)
  have fl: "\<lfloor>(1001::rat) / 1000\<rfloor> = 1" by (simp add: floor_eq_iff)
  have "interval_as_specified 1001 = (1, 1000)"
    by (simp add: interval_as_specified_def round_def fl floor_eq_iff)
  then show ?thesis
    by (simp add: build_bcm_header_def d split_seconds_zero split_seconds_1001
        fits_unsigned_int_def fits_long_def del: py_truediv.simps)
qed


lemma round_20: "round_double (1 / 50) = Fin (5764607523034235 / 288230376151711744)"
  using round_double_eqI [of "- 6" "1 / 50" 5764607523034235]
  by (simp add: power_int_minus_divide)

lemma round_20_part:
  "round_double (5764607523034235 / 288230376151711744) = Fin (5764607523034235 / 288230376151711744)"
  using round_double_eqI [of "- 6" "5764607523034235 / 288230376151711744" 5764607523034235]
  by (simp add: power_int_minus_divide)

lemma round_20_useconds:
  "round_double (90071992547409921875 / 4503599627370496) = Fin 20000"
  using round_double_eqI [of 14 "90071992547409921875 / 4503599627370496" 5497558138880000]
  by (simp add: power_int_minus_divide)

lemma split_seconds_20:
  "split_seconds_to_full_and_part (PyFloat (Fin (5764607523034235 / 288230376151711744)))
     = Inr (0, 20000)"
proof -
  let ?x = "Fin (5764607523034235 / 288230376151711744)"
  have f: "math_floor (PyFloat ?x) = Inr 0" by (simp add: floor_eq_iff)
  have zero: "float_of_int 0 = Inr (Fin 0)"
    using float_of_int_small [of 0] by simp
  have s: "py_sub (PyFloat ?x) (PyInt 0) = Inr (PyFloat ?x)"
    by (simp add: zero fsub_def fadd_def round_20_part)
  have million: "float_of_int 1000000 = Inr (Fin 1000000)"
    using float_of_int_small [of 1000000] by simp
  have m: "py_mul (PyFloat ?x) (PyInt 1000000) = Inr (PyFloat (Fin 20000))"
    by (simp add: million fmul_def round_20_useconds)
  have i: "py_int (PyFloat (Fin 20000)) = Inr 20000"
    using truncate_rat_of_int [of 20000] by simp
  show ?thesis
    by (simp add: split_seconds_to_full_and_part_def py_lt_def f s m i MICROSECONDS_PER_SECOND_def
        del: py_sub.simps py_mul.simps py_int.simps math_floor.simps)
qed

lemma split_seconds_float_zero: "split_seconds_to_full_and_part (PyFloat (Fin 0)) = Inr (0, 0)"
proof -
  have zero: "float_of_int 0 = Inr (Fin 0)"
    using float_of_int_small [of 0] by simp
  have million: "float_of_int 1000000 = Inr (Fin 1000000)"
    using float_of_int_small [of 1000000] by simp
  have s: "py_sub (PyFloat (Fin 0)) (PyInt 0) = Inr (PyFloat (Fin 0))"
    by (simp add: zero fsub_def fadd_def signed_zero_def)
  have m: "py_mul (PyFloat (Fin 0)) (PyInt 1000000) = Inr (PyFloat (Fin 0))"
    by (simp add: million fmul_def signed_zero_def)
  show ?thesis
    by (simp add: split_seconds_to_full_and_part_def py_lt_def s m MICROSECONDS_PER_SECOND_def
        truncate_rat_def del: py_sub.simps py_mul.simps)
qed

lemma header_setup_20:
  "build_bcm_header linux_host CAN_BCM_TX_SETUP 3 (PyInt 20) 7 CAN_FRAMEFORMAT_STANDARD 1
     = Inr (tx_header CAN_BCM_TX_SETUP 3 0 20000 7)"
proof -
  have d: "py_truediv (PyInt 20) (PyInt MILLISECONDS_PER_SECOND)
      = Inr (PyFloat (Fin (5764607523034235 / 288230376151711744)))"
    by (simp add: MILLISECONDS_PER_SECOND_def round_20)
  show ?thesis
    by (simp add: build_bcm_header_def d split_seconds_zero split_seconds_20 tx_header_def
        fits_unsigned_int_def fits_long_def linux_host_def del: py_truediv.simps)
qed

lemma header_zero_interval:
  "fits_unsigned_int fl \<Longrightarrow>
   build_bcm_header linux_host op fl (PyInt 0) 7 CAN_FRAMEFORMAT_STANDARD 1
     = Inr (tx_header op fl 0 0 7)"
proof -
  assume fl: "fits_unsigned_int fl"
  have d: "py_truediv (PyInt 0) (PyInt MILLISECONDS_PER_SECOND) = Inr (PyFloat (Fin 0))"
    by (simp add: MILLISECONDS_PER_SECOND_def)
  show ?thesis
    using fl
    by (simp add: build_bcm_header_def d split_seconds_zero split_seconds_float_zero tx_header_def
        fits_unsigned_int_def fits_long_def linux_host_def del: py_truediv.simps)
qed

lemma write_bus_value_testsignal1:
  "write_bus_value (zero_frame 7 8) testsignal1 1
     = Inr (zero_frame 7 8\<lparr>frame_data := [0, 0, 0, 0, 0, 0, 0, 1]\<rparr>)"
  by code_simp

lemma rawframe_testsignal1:
  "get_rawframe LITTLE_ENDIAN (zero_frame 7 8\<lparr>frame_data := [0, 0, 0, 0, 0, 0, 0, 1]\<rparr>)
     = Inr [7, 0, 0, 0, 8, 0, 0, 0, 0, 0, 0, 0, 0, 0, 0, 1]"
  by code_simp

lemma set_testsignal1:
  "set_signalvalue (zero_frame 7 8) testsignal1 (Some (PyInt 1))
     = Inr (zero_frame 7 8\<lparr>frame_data := [0, 0, 0, 0, 0, 0, 0, 1]\<rparr>)"
proof -
  have dlc: "get_minimum_dlc testsignal1 = 8"
    by (simp add: get_minimum_dlc_def testsignal1_def BITS_PER_BYTE_def)
  have lower: "get_minimum_possible_value testsignal1 = Inr (PyFloat (Fin 0))"
    and upper: "get_maximum_possible_value testsignal1 = Inr (PyFloat (Fin 1))"
    using possible_values_unsigned [of testsignal1] by (simp_all add: testsignal1_def)
  have lim: "limit_to_min_max testsignal1 (PyInt 1) = PyInt 1"
    by (simp add: limit_to_min_max_def testsignal1_def)
  have "write_physical_value (zero_frame 7 8) testsignal1 (PyInt 1)
      = Inr (zero_frame 7 8\<lparr>frame_data := [0, 0, 0, 0, 0, 0, 0, 1]\<rparr>)"
    using write_physical_value_unsigned [of testsignal1 1 "zero_frame 7 8"]
      write_bus_value_testsignal1
    by (simp add: testsignal1_def)
  then show ?thesis
    using dlc lower upper lim
    by (simp add: set_signalvalue_def py_lt_def py_gt_def zero_frame_def)
qed

text \<open>
  Claim C1 at the bus of scenario S7: the first \<^verbatim>\<open>send_signals\<close> for the frame, whose
  status is periodic-not-yet-started, hands the socket two datagrams, the \<^verbatim>\<open>TX_SETUP\<close> with
  \<^verbatim>\<open>SETTIMER|STARTTIMER\<close> and 20000 microseconds and then a \<^verbatim>\<open>TX_SEND\<close>, and leaves the
  status periodic.
\<close>

theorem send_signals_first_call:
  "and_then (send_signals linux_host accepting_kernel periodic_bus [(''testsignal1'', Some (PyInt 1))])
     (\<lambda>bus. Inr (sent bus, transmissionstatus bus 7))
   = Inr ([BcmMessage (tx_header CAN_BCM_TX_SETUP 3 0 20000 7)
             [7, 0, 0, 0, 8, 0, 0, 0, 0, 0, 0, 0, 0, 0, 0, 1],
           BcmMessage (tx_header CAN_BCM_TX_SEND 0 0 0 7)
             [7, 0, 0, 0, 8, 0, 0, 0, 0, 0, 0, 0, 0, 0, 0, 1]],
          Some STATUS_PERIODIC)"
proof -
  let ?f = "zero_frame 7 8\<lparr>frame_data := [0, 0, 0, 0, 0, 0, 0, 1]\<rparr>"
  let ?bus1 = "periodic_bus\<lparr>frames := [0 \<mapsto> ?f]\<rparr>"
  have u: "update_frames [(''testsignal1'', Some (PyInt 1))] [] periodic_bus = Inr ([0], ?bus1)"
    by (simp add: periodic_bus_def set_testsignal1)
  have fid: "frame_id ?f = 7" "frame_format ?f = CAN_FRAMEFORMAT_STANDARD"
    by (simp_all add: zero_frame_def)
  have twenty: "float_of_int 20 = Inr (Fin 20)"
    using float_of_int_small [of 20] by simp
  have first_msg: "setup_periodic_send linux_host accepting_kernel [] ?f (Some (PyInt 20)) True
      = Inr [BcmMessage (tx_header CAN_BCM_TX_SETUP 3 0 20000 7)
               [7, 0, 0, 0, 8, 0, 0, 0, 0, 0, 0, 0, 0, 0, 0, 1]]"
    using rawframe_testsignal1
    by (simp add: setup_periodic_send_def twenty py_lt_def BCM_FLAG_SETTIMER_def
        BCM_FLAG_STARTTIMER_def fid header_setup_20 send_via_socket_def accepting_kernel_def
        linux_host_def [symmetric])
      (simp add: linux_host_def)
  have send: "bcm_send_frame linux_host accepting_kernel outbox ?f
      = Inr (outbox @ [BcmMessage (tx_header CAN_BCM_TX_SEND 0 0 0 7)
               [7, 0, 0, 0, 8, 0, 0, 0, 0, 0, 0, 0, 0, 0, 0, 1]])" for outbox
    using rawframe_testsignal1 header_zero_interval [of 0 CAN_BCM_TX_SEND]
    by (simp add: bcm_send_frame_def fid send_via_socket_def accepting_kernel_def
        fits_unsigned_int_def)
      (simp add: linux_host_def)
  have one: "send_one_bcm linux_host accepting_kernel ?bus1 ?f
      = Inr (?bus1\<lparr>sent := [BcmMessage (tx_header CAN_BCM_TX_SETUP 3 0 20000 7)
                 [7, 0, 0, 0, 8, 0, 0, 0, 0, 0, 0, 0, 0, 0, 0, 1],
               BcmMessage (tx_header CAN_BCM_TX_SEND 0 0 0 7)
                 [7, 0, 0, 0, 8, 0, 0, 0, 0, 0, 0, 0, 0, 0, 0, 1]],
             transmissionstatus := [7 \<mapsto> STATUS_PERIODIC]\<rparr>)"
    using first_msg
    by (simp add: send_one_bcm_def fid periodic_bus_def periodic_framedef_def plain_framedef_def
        send)
  have fr: "frames ?bus1 0 = Some ?f" "use_bcm ?bus1"
    by (simp_all add: periodic_bus_def)
  have "send_signals linux_host accepting_kernel periodic_bus [(''testsignal1'', Some (PyInt 1))]
      = send_frames linux_host accepting_kernel [0] ?bus1"
    by (simp add: send_signals_def u del: update_frames.simps)
  also have "\<dots> = send_one_bcm linux_host accepting_kernel ?bus1 ?f"
    by (simp add: fr one)
  finally show ?thesis
    by (simp add: one)
qed


lemma write_bus_value_testsignal1_zero:
  "write_bus_value (zero_frame 7 8) testsignal1 0 = Inr (zero_frame 7 8)"
  by code_simp

lemma CanBus_init_periodic:
  "CanBus_init [(7, periodic_framedef)] {''ego''} True = Inr periodic_bus"
proof -
  have dlc: "get_minimum_dlc testsignal1 = 8"
    by (simp add: get_minimum_dlc_def testsignal1_def BITS_PER_BYTE_def)
  have lower: "get_minimum_possible_value testsignal1 = Inr (PyFloat (Fin 0))"
    and upper: "get_maximum_possible_value testsignal1 = Inr (PyFloat (Fin 1))"
    using possible_values_unsigned [of testsignal1] by (simp_all add: testsignal1_def)
  have lim: "limit_to_min_max testsignal1 (PyInt 0) = PyInt 0"
    by (simp add: limit_to_min_max_def testsignal1_def)
  have "write_physical_value (zero_frame 7 8) testsignal1 (PyInt 0) = Inr (zero_frame 7 8)"
    using write_physical_value_unsigned [of testsignal1 0 "zero_frame 7 8"]
      write_bus_value_testsignal1_zero
    by (simp add: testsignal1_def)
  then have s: "set_signalvalue (zero_frame 7 8) testsignal1 None = Inr (zero_frame 7 8)"
    using dlc lower upper lim
    by (simp add: set_signalvalue_def py_lt_def py_gt_def zero_frame_def testsignal1_def)
  have e: "from_empty_bytes 7 8 CAN_FRAMEFORMAT_STANDARD = Inr (zero_frame 7 8)"
    by (simp add: from_empty_bytes_def CanFrame_init_def check_frame_id_and_format_def
        MAX_NUMBER_OF_CAN_DATA_BYTES_def MAX_CAN_FRAME_ID_STANDARD_def zero_frame_def)
  have o: "is_outbound periodic_framedef {''ego''}"
    by (simp add: is_outbound_def periodic_framedef_def plain_framedef_def)
  have sn: "signalname testsignal1 = ''testsignal1''"
    by (simp add: testsignal1_def)
  show ?thesis
    using o
    by (simp add: CanBus_init_def e s sn periodic_framedef_def plain_framedef_def periodic_bus_def)
qed

subsection \<open>Bits of the payload\<close>

lemma backward_less: "backward p < 64"
proof -
  have "p mod 8 < 8" by simp
  moreover have "7 - p div 8 \<le> 7" by simp
  ultimately show ?thesis unfolding backward_def by linarith
qed

lemma backward_div: "p < 64 \<Longrightarrow> backward p div 8 = 7 - p div 8"
  unfolding backward_def by simp

lemma backward_mod: "backward p mod 8 = p mod 8"
  unfolding backward_def by simp

lemma backward_backward: "p < 64 \<Longrightarrow> backward (backward p) = p"
proof -
  assume p: "p < 64"
  then have d: "p div 8 \<le> 7" by simp
  have "backward (backward p) = 8 * (7 - backward p div 8) + backward p mod 8"
    by (simp add: backward_def)
  also have "\<dots> = 8 * (7 - (7 - p div 8)) + p mod 8"
    by (simp only: backward_div [OF p] backward_mod)
  also have "\<dots> = 8 * (p div 8) + p mod 8" using d by simp
  also have "\<dots> = p" by simp
  finally show ?thesis .
qed

lemma calculate_backward_bitnumber_nat:
  "p < 64 \<Longrightarrow> calculate_backward_bitnumber (int p) = Inr (int (backward p))"
proof -
  assume p: "p < 64"
  then have d: "p div 8 \<le> 7" by simp
  have m: "int p - int (p div 8) * 8 = int (p mod 8)"
    by (simp add: zmod_int mod_mult_div_eq minus_mult_div_eq_mod [symmetric] algebra_simps)
  have dd: "int p div 8 = int (p div 8)" by (simp add: zdiv_int)
  have r: "int (backward p) = (7 - int (p div 8)) * 8 + int (p mod 8)"
    using d by (simp add: backward_def of_nat_diff)
  show ?thesis
    using p m dd
    by (simp add: calculate_backward_bitnumber_def Let_def r
        BITS_IN_FULL_DATA_def BITS_PER_BYTE_def MAX_NUMBER_OF_CAN_DATA_BYTES_def)
qed


lemma nth_ljust: "i < n \<Longrightarrow> ljust n bs ! i = (if i < length bs then bs ! i else 0)"
  by (simp add: ljust_def nth_append)

lemma length_ljust: "length bs \<le> n \<Longrightarrow> length (ljust n bs) = n"
  by (simp add: ljust_def)

lemma bit_padded_payload:
  assumes "length data \<le> 8"
  shows "bit (bytes_to_int_be (ljust 8 data)) j \<longleftrightarrow> j < 64 \<and> payload_bit data (backward j)"
proof (cases "j < 64")
  case True
  then have d: "j div 8 \<le> 7" by simp
  then have i: "8 - 1 - j div 8 < 8" by simp
  have "bit (bytes_to_int_be (ljust 8 data)) j
      \<longleftrightarrow> bit (ljust 8 data ! (8 - 1 - j div 8)) (j mod 8)"
    using True assms by (simp add: bit_bytes_to_int_be length_ljust)
  also have "\<dots> \<longleftrightarrow> 7 - j div 8 < length data \<and> bit (data ! (7 - j div 8)) (j mod 8)"
    using i by (simp add: nth_ljust)
  also have "\<dots> \<longleftrightarrow> payload_bit data (backward j)"
    using True by (simp add: payload_bit_def backward_div backward_mod)
  finally show ?thesis using True by simp
next
  case False
  then show ?thesis using assms by (simp add: bit_bytes_to_int_be length_ljust)
qed

lemma can_bytes_to_int_ok:
  "length data \<le> 8 \<Longrightarrow> can_bytes_to_int data = Inr (bytes_to_int_be (ljust 8 data))"
  by (simp add: can_bytes_to_int_def MAX_NUMBER_OF_CAN_DATA_BYTES_def unpack_uint_def)

lemma padded_payload_bounds:
  "length data \<le> 8 \<Longrightarrow> 0 \<le> bytes_to_int_be (ljust 8 data)
     \<and> bytes_to_int_be (ljust 8 data) < 2 ^ 64"
  using bytes_to_int_be_nonneg [of "ljust 8 data"] bytes_to_int_be_bound [of "ljust 8 data"]
  by (simp add: length_ljust)

lemma int_to_can_bytes_ok:
  assumes "0 \<le> v" "v < 2 ^ 64" "dl \<le> 8"
  shows "int_to_can_bytes (int dl) v = Inr (take dl (int_to_bytes_be 8 v))"
  using assms
  by (simp add: int_to_can_bytes_def MAX_NUMBER_OF_CAN_DATA_BYTES_def pack_uint_def py_slice_to_def)

lemma payload_bit_int_to_bytes:
  assumes "dl \<le> 8"
  shows "payload_bit (take dl (int_to_bytes_be 8 v)) p \<longleftrightarrow> p < 8 * dl \<and> bit v (backward p)"
proof (cases "p < 8 * dl")
  case True
  then have k: "p div 8 < dl" by simp
  with assms have k8: "p div 8 < 8" by simp
  then have p64: "p < 64" by simp
  have "payload_bit (take dl (int_to_bytes_be 8 v)) p
      \<longleftrightarrow> bit (word_of_int (drop_bit (8 * (8 - 1 - p div 8)) v) :: byte) (p mod 8)"
    using k k8 assms by (simp add: payload_bit_def nth_int_to_bytes_be)
  also have "\<dots> \<longleftrightarrow> bit v (8 * (7 - p div 8) + p mod 8)"
    by (simp add: bit_word_of_int_iff bit_drop_bit_eq)
  finally show ?thesis using True by (simp add: backward_def)
next
  case False
  then have "\<not> p div 8 < dl" by simp
  then show ?thesis using False assms by (simp add: payload_bit_def)
qed


lemma py_getitem_in_range:
  "0 \<le> i \<Longrightarrow> i < int (length xs) \<Longrightarrow> py_getitem xs i = Inr (xs ! nat i)"
  by (simp add: py_getitem_def py_index_def)

lemma py_setitem_in_range:
  "0 \<le> i \<Longrightarrow> i < int (length xs) \<Longrightarrow> py_setitem xs i v = Inr (xs[nat i := v])"
  by (simp add: py_setitem_def py_index_def)

lemma reshuffle_spec:
  assumes "distinct idxs" "inj_on destination (set idxs)"
    "\<forall>i\<in>set idxs. 0 \<le> origin i \<and> origin i < int (length source)"
    "\<forall>i\<in>set idxs. 0 \<le> destination i \<and> destination i < int (length acc)"
  shows "\<exists>r. reshuffle origin destination source idxs acc = Inr r \<and> length r = length acc
      \<and> (\<forall>i\<in>set idxs. r ! nat (destination i) = source ! nat (origin i))
      \<and> (\<forall>j. (\<forall>i\<in>set idxs. nat (destination i) \<noteq> j) \<longrightarrow> r ! j = acc ! j)"
  using assms
proof (induction idxs arbitrary: acc)
  case Nil
  then show ?case by simp
next
  case (Cons i rest)
  let ?acc = "acc[nat (destination i) := source ! nat (origin i)]"
  have oi: "0 \<le> origin i" "origin i < int (length source)"
    and di: "0 \<le> destination i" "destination i < int (length acc)"
    using Cons.prems(3,4) by simp_all
  have step: "reshuffle origin destination source (i # rest) acc
      = reshuffle origin destination source rest ?acc"
    using oi di by (simp add: py_getitem_in_range py_setitem_in_range)
  have "\<exists>r. reshuffle origin destination source rest ?acc = Inr r \<and> length r = length ?acc
      \<and> (\<forall>i\<in>set rest. r ! nat (destination i) = source ! nat (origin i))
      \<and> (\<forall>j. (\<forall>i\<in>set rest. nat (destination i) \<noteq> j) \<longrightarrow> r ! j = ?acc ! j)"
  proof (rule Cons.IH)
    show "distinct rest" using Cons.prems(1) by simp
    show "inj_on destination (set rest)" using Cons.prems(2) by (simp add: inj_on_def)
    show "\<forall>i\<in>set rest. 0 \<le> origin i \<and> origin i < int (length source)"
      using Cons.prems(3) by simp
    show "\<forall>i\<in>set rest. 0 \<le> destination i \<and> destination i < int (length ?acc)"
      using Cons.prems(4) by simp
  qed
  then obtain r where r: "reshuffle origin destination source rest ?acc = Inr r"
    "length r = length acc"
    "\<forall>i\<in>set rest. r ! nat (destination i) = source ! nat (origin i)"
    "\<forall>j. (\<forall>i\<in>set rest. nat (destination i) \<noteq> j) \<longrightarrow> r ! j = ?acc ! j"
    by auto
  have fresh: "\<forall>k\<in>set rest. nat (destination k) \<noteq> nat (destination i)"
  proof
    fix k assume k: "k \<in> set rest"
    then have "k \<noteq> i" using Cons.prems(1) by auto
    then have "destination k \<noteq> destination i"
      using Cons.prems(2) k by (auto simp: inj_on_def)
    moreover have "0 \<le> destination k" using Cons.prems(4) k by simp
    ultimately show "nat (destination k) \<noteq> nat (destination i)" using di(1) by simp
  qed
  have here: "r ! nat (destination i) = source ! nat (origin i)"
    using r(4) fresh di by simp
  have other: "\<forall>j. (\<forall>k\<in>set (i # rest). nat (destination k) \<noteq> j) \<longrightarrow> r ! j = acc ! j"
    using r(4) by auto
  show ?case
    using step r(1,2,3) here other by auto
qed

lemma ones_mask_nat: "ones_mask (int n) = Inr (mask n)"
  by (simp add: ones_mask_def mask_eq_exp_minus_1 push_bit_eq_mult)

lemma bit_and_mask_int: "bit (x AND mask n) k \<longleftrightarrow> k < n \<and> bit (x::int) k"
  by (auto simp: bit_and_iff bit_mask_iff)

lemma get_busvalue_big:
  assumes "sb < 64" "length data \<le> 8"
  shows "\<exists>v. get_busvalue_from_bytes data BIG_ENDIAN (int n) (int sb) = Inr v
      \<and> (\<forall>k. bit v k \<longleftrightarrow> k < n \<and> backward sb + k < 64
             \<and> payload_bit data (backward (backward sb + k)))"
proof -
  let ?v = "drop_bit (backward sb) (bytes_to_int_be (ljust 8 data)) AND mask n"
  have g: "get_busvalue_from_bytes data BIG_ENDIAN (int n) (int sb) = Inr ?v"
    using assms
    by (simp add: get_busvalue_from_bytes_def calculate_backward_bitnumber_nat
        can_bytes_to_int_ok ones_mask_nat)
  have "bit ?v k \<longleftrightarrow> k < n \<and> backward sb + k < 64
             \<and> payload_bit data (backward (backward sb + k))" for k
    using assms(2)
    by (simp add: bit_and_mask_int bit_drop_bit_eq bit_padded_payload)
  with g show ?thesis by blast
qed



lemma set_py_range: "set (py_range a b) = {a..b - 1}" and distinct_py_range: "distinct (py_range a b)"
  by (simp_all add: py_range_def)

lemma reshuffle_to_right:
  assumes "bs + nb \<le> length data" "nb \<le> 8"
  shows "\<exists>r. reshuffle (\<lambda>i. int bs + i) (\<lambda>i. int MAX_NUMBER_OF_CAN_DATA_BYTES - 1 - i) data
            (py_range 0 (int nb)) (replicate MAX_NUMBER_OF_CAN_DATA_BYTES 0) = Inr r
      \<and> length r = 8
      \<and> (\<forall>i<8. r ! (7 - i) = (if i < nb then data ! (bs + i) else 0))"
proof -
  let ?idx = "py_range 0 (int nb)"
  let ?dest = "\<lambda>i::int. int MAX_NUMBER_OF_CAN_DATA_BYTES - 1 - i"
  let ?zero = "replicate MAX_NUMBER_OF_CAN_DATA_BYTES (0::byte)"
  have mem: "i \<in> set ?idx \<longleftrightarrow> 0 \<le> i \<and> i < int nb" for i
    by (auto simp: set_py_range)
  have "\<exists>r. reshuffle (\<lambda>i. int bs + i) ?dest data ?idx ?zero = Inr r
      \<and> length r = length ?zero
      \<and> (\<forall>i\<in>set ?idx. r ! nat (?dest i) = data ! nat (int bs + i))
      \<and> (\<forall>j. (\<forall>i\<in>set ?idx. nat (?dest i) \<noteq> j) \<longrightarrow> r ! j = ?zero ! j)"
  proof (rule reshuffle_spec)
    show "distinct ?idx" by (rule distinct_py_range)
    show "inj_on ?dest (set ?idx)"
      by (rule inj_onI) simp
    show "\<forall>i\<in>set ?idx. 0 \<le> int bs + i \<and> int bs + i < int (length data)"
    proof
      fix i assume "i \<in> set ?idx"
      then have "0 \<le> i" "i < int nb" by (simp_all add: mem)
      with assms(1) show "0 \<le> int bs + i \<and> int bs + i < int (length data)" by linarith
    qed
    show "\<forall>i\<in>set ?idx. 0 \<le> ?dest i \<and> ?dest i < int (length ?zero)"
    proof
      fix i assume "i \<in> set ?idx"
      then have "0 \<le> i" "i < int nb" by (simp_all add: mem)
      with assms(2) show "0 \<le> ?dest i \<and> ?dest i < int (length ?zero)"
        by (simp add: MAX_NUMBER_OF_CAN_DATA_BYTES_def)
    qed
  qed
  then obtain r where r: "reshuffle (\<lambda>i. int bs + i) ?dest data ?idx ?zero = Inr r"
    and lr: "length r = length ?zero"
    and moved: "\<And>i. i \<in> set ?idx \<Longrightarrow> r ! nat (?dest i) = data ! nat (int bs + i)"
    and rest: "\<And>j. (\<forall>i\<in>set ?idx. nat (?dest i) \<noteq> j) \<Longrightarrow> r ! j = ?zero ! j"
    by blast
  have l8: "length r = 8" using lr by (simp add: MAX_NUMBER_OF_CAN_DATA_BYTES_def)
  have "r ! (7 - i) = (if i < nb then data ! (bs + i) else 0)" if i8: "i < 8" for i
  proof (cases "i < nb")
    case True
    then have "int i \<in> set ?idx" by (simp add: mem)
    from moved [OF this] have "r ! nat (?dest (int i)) = data ! nat (int bs + int i)" .
    moreover have "nat (?dest (int i)) = 7 - i"
      using i8 by (simp add: MAX_NUMBER_OF_CAN_DATA_BYTES_def)
    moreover have "nat (int bs + int i) = bs + i" by simp
    ultimately show ?thesis using True by simp
  next
    case False
    have "\<forall>k\<in>set ?idx. nat (?dest k) \<noteq> 7 - i"
    proof
      fix k assume "k \<in> set ?idx"
      then have k: "0 \<le> k" "k < int nb" by (simp_all add: mem)
      then have "nat (?dest k) = 7 - nat k"
        using assms(2) by (simp add: MAX_NUMBER_OF_CAN_DATA_BYTES_def nat_diff_distrib)
      moreover have "nat k < i" using k False by linarith
      ultimately show "nat (?dest k) \<noteq> 7 - i" using i8 by simp
    qed
    from rest [OF this] have "r ! (7 - i) = 0"
      by (simp add: MAX_NUMBER_OF_CAN_DATA_BYTES_def)
    with False show ?thesis by simp
  qed
  with r l8 show ?thesis by blast
qed


lemma bit_reshuffled_right:
  assumes lr: "length r = 8" and nb: "nb \<le> 8"
    and rbyte: "\<forall>i<8. r ! (7 - i) = (if i < nb then data ! (bs + i) else (0::byte))"
  shows "bit (bytes_to_int_be (ljust 8 r)) j
      \<longleftrightarrow> j div 8 < nb \<and> bit (data ! (bs + j div 8)) (j mod 8)"
proof (cases "j < 64")
  case True
  then have j8: "j div 8 < 8" by simp
  have "bit (bytes_to_int_be (ljust 8 r)) j \<longleftrightarrow> payload_bit r (backward j)"
    using True lr by (simp add: bit_padded_payload)
  also have "\<dots> \<longleftrightarrow> bit (r ! (7 - j div 8)) (j mod 8)"
  proof -
    have "7 - j div 8 < 8" by linarith
    then show ?thesis
      using True lr by (simp add: payload_bit_def backward_div backward_mod)
  qed
  also have "\<dots> \<longleftrightarrow> j div 8 < nb \<and> bit (data ! (bs + j div 8)) (j mod 8)"
    using rbyte j8 by simp
  finally show ?thesis .
next
  case False
  then have "\<not> j div 8 < nb" using nb by simp
  with False show ?thesis using lr by (simp add: bit_padded_payload)
qed


lemma little_endian_bytes:
  fixes sb n :: nat
  assumes n: "1 \<le> n"
  defines "bs \<equiv> sb div 8" and "st \<equiv> (sb + n - 1) div 8"
  shows "int sb div BITS_PER_BYTE = int bs"
    and "(int sb + int n - 1) div BITS_PER_BYTE = int st"
    and "int st - int bs + 1 = int (st - bs + 1)"
    and "int sb mod BITS_PER_BYTE = int (sb mod 8)"
    and "bs \<le> st"
proof -
  show "int sb div BITS_PER_BYTE = int bs"
    by (simp add: BITS_PER_BYTE_def bs_def zdiv_int)
  have e: "int sb + int n - 1 = int (sb + n - 1)" using n by simp
  have "int (sb + n - 1) div 8 = int ((sb + n - 1) div 8)" by (simp only: zdiv_int of_nat_numeral)
  then show "(int sb + int n - 1) div BITS_PER_BYTE = int st"
    by (simp only: e BITS_PER_BYTE_def st_def)
  have "sb \<le> sb + n - 1" using n by simp
  then show le: "bs \<le> st" unfolding bs_def st_def by (rule div_le_mono)
  then show "int st - int bs + 1 = int (st - bs + 1)" by simp
  show "int sb mod BITS_PER_BYTE = int (sb mod 8)"
    by (simp add: BITS_PER_BYTE_def zmod_int)
qed


lemma get_busvalue_little:
  fixes sb n :: nat
  assumes n: "1 \<le> n"
    and len: "(sb + n - 1) div 8 < length data" "length data \<le> 8"
  shows "\<exists>v. get_busvalue_from_bytes data LITTLE_ENDIAN (int n) (int sb) = Inr v
      \<and> (\<forall>k. bit v k \<longleftrightarrow> k < n \<and> payload_bit data (sb + k))"
proof -
  define bs where "bs = sb div 8"
  define st where "st = (sb + n - 1) div 8"
  define steps where "steps = sb mod 8"
  define nb where "nb = st - bs + 1"
  note i = little_endian_bytes [OF n, of sb, folded bs_def st_def steps_def nb_def]
  have sb: "sb = 8 * bs + steps" by (simp add: bs_def steps_def)
  have st8: "st < 8" using len by (simp add: st_def)
  have bs8: "bs < 8" using i(5) st8 by simp
  have nb8: "nb \<le> 8" using st8 by (simp add: nb_def)
  have "bs + nb \<le> length data" using i(5) len(1) by (simp add: nb_def st_def)
  from reshuffle_to_right [OF this nb8] obtain r where
    r: "reshuffle (\<lambda>i. int bs + i) (\<lambda>i. int MAX_NUMBER_OF_CAN_DATA_BYTES - 1 - i) data
            (py_range 0 (int nb)) (replicate MAX_NUMBER_OF_CAN_DATA_BYTES 0) = Inr r"
    and lr: "length r = 8"
    and rbyte: "\<forall>i<8. r ! (7 - i) = (if i < nb then data ! (bs + i) else 0)"
    by blast
  note temp = bit_reshuffled_right [OF lr nb8 rbyte]
  let ?v = "drop_bit steps (bytes_to_int_be (ljust 8 r)) AND mask n"
  have c: "can_bytes_to_int r = Inr (bytes_to_int_be (ljust 8 r))"
    using lr by (simp add: can_bytes_to_int_ok)
  have r': "reshuffle ((+) (int bs)) ((-) 7) data (py_range 0 (int nb)) (replicate 8 0) = Inr r"
    using r by (simp add: MAX_NUMBER_OF_CAN_DATA_BYTES_def)
  have g: "get_busvalue_from_bytes data LITTLE_ENDIAN (int n) (int sb) = Inr ?v"
    unfolding get_busvalue_from_bytes_def Let_def i(1) i(2) i(3) i(4)
    using bs8 st8
    by (simp add: r' c ones_mask_nat MAX_NUMBER_OF_CAN_DATA_BYTES_def)
  have "bit ?v k \<longleftrightarrow> k < n \<and> payload_bit data (sb + k)" for k
  proof (cases "k < n")
    case True
    have "(8 * bs + (steps + k)) div 8 = bs + (steps + k) div 8" by simp
    then have e1: "bs + (steps + k) div 8 = (sb + k) div 8" by (simp add: sb add.assoc)
    have "(8 * bs + (steps + k)) mod 8 = (steps + k) mod 8" by (rule mod_mult_self4)
    then have e2: "(steps + k) mod 8 = (sb + k) mod 8" by (simp add: sb add.assoc)
    have "sb + k \<le> sb + n - 1" using True by simp
    then have k_st: "(sb + k) div 8 \<le> st" unfolding st_def by (rule div_le_mono)
    then have le: "(sb + k) div 8 < length data" using len(1) by (simp add: st_def)
    have "bs + (steps + k) div 8 \<le> st" using k_st by (simp only: e1)
    then have nbk: "(steps + k) div 8 < nb" by (simp add: nb_def)
    have "bit ?v k \<longleftrightarrow> bit (bytes_to_int_be (ljust 8 r)) (steps + k)"
      using True by (simp add: bit_and_mask_int bit_drop_bit_eq)
    also have "\<dots> \<longleftrightarrow> bit (data ! (bs + (steps + k) div 8)) ((steps + k) mod 8)"
      using nbk by (simp add: temp)
    also have "\<dots> \<longleftrightarrow> payload_bit data (sb + k)"
      using le by (simp only: e1 e2 payload_bit_def) simp
    finally show ?thesis using True by simp
  next
    case False
    then show ?thesis by (simp add: bit_and_mask_int)
  qed
  with g show ?thesis by blast
qed

lemma bit_imp_less_width:
  assumes "0 \<le> (v::int)" "v < 2 ^ n" "bit v k"
  shows "k < n"
proof -
  have "take_bit n v = v" using assms(1,2) by (simp add: take_bit_int_eq_self)
  then have "bit (take_bit n v) k" using assms(3) by simp
  then show ?thesis by (simp add: bit_take_bit_iff)
qed

lemma push_bit_bounds:
  assumes "0 \<le> (v::int)" "v < 2 ^ n"
  shows "0 \<le> push_bit s v" and "push_bit s v < 2 ^ (s + n)"
proof -
  show "0 \<le> push_bit s v" using assms(1) by simp
  have "v * 2 ^ s < 2 ^ n * 2 ^ s" using assms(2) by (intro mult_strict_right_mono) simp_all
  then show "push_bit s v < 2 ^ (s + n)"
    by (simp add: push_bit_eq_mult power_add mult.commute)
qed

lemma reshuffle_from_right:
  assumes "bs + nb \<le> 8" "length source = 8"
  shows "\<exists>r. reshuffle (\<lambda>i. int MAX_NUMBER_OF_CAN_DATA_BYTES - 1 - i) (\<lambda>i. int bs + i) source
            (py_range 0 (int nb)) (replicate MAX_NUMBER_OF_CAN_DATA_BYTES 0) = Inr r
      \<and> length r = 8
      \<and> (\<forall>b<8. r ! b = (if bs \<le> b \<and> b < bs + nb then source ! (7 - (b - bs)) else 0))"
proof -
  let ?idx = "py_range 0 (int nb)"
  let ?orig = "\<lambda>i::int. int MAX_NUMBER_OF_CAN_DATA_BYTES - 1 - i"
  let ?zero = "replicate MAX_NUMBER_OF_CAN_DATA_BYTES (0::byte)"
  have mem: "i \<in> set ?idx \<longleftrightarrow> 0 \<le> i \<and> i < int nb" for i
    by (auto simp: set_py_range)
  have "\<exists>r. reshuffle ?orig (\<lambda>i. int bs + i) source ?idx ?zero = Inr r
      \<and> length r = length ?zero
      \<and> (\<forall>i\<in>set ?idx. r ! nat (int bs + i) = source ! nat (?orig i))
      \<and> (\<forall>j. (\<forall>i\<in>set ?idx. nat (int bs + i) \<noteq> j) \<longrightarrow> r ! j = ?zero ! j)"
  proof (rule reshuffle_spec)
    show "distinct ?idx" by (rule distinct_py_range)
    show "inj_on (\<lambda>i. int bs + i) (set ?idx)"
      by (rule inj_onI) simp
    show "\<forall>i\<in>set ?idx. 0 \<le> ?orig i \<and> ?orig i < int (length source)"
    proof
      fix i assume "i \<in> set ?idx"
      then have "0 \<le> i" "i < int nb" by (simp_all add: mem)
      with assms show "0 \<le> ?orig i \<and> ?orig i < int (length source)"
        by (simp add: MAX_NUMBER_OF_CAN_DATA_BYTES_def)
    qed
    show "\<forall>i\<in>set ?idx. 0 \<le> int bs + i \<and> int bs + i < int (length ?zero)"
    proof
      fix i assume "i \<in> set ?idx"
      then have "0 \<le> i" "i < int nb" by (simp_all add: mem)
      with assms(1) show "0 \<le> int bs + i \<and> int bs + i < int (length ?zero)"
        by (simp add: MAX_NUMBER_OF_CAN_DATA_BYTES_def)
    qed
  qed
  then obtain r where r: "reshuffle ?orig (\<lambda>i. int bs + i) source ?idx ?zero = Inr r"
    and lr: "length r = length ?zero"
    and moved: "\<And>i. i \<in> set ?idx \<Longrightarrow> r ! nat (int bs + i) = source ! nat (?orig i)"
    and rest: "\<And>j. (\<forall>i\<in>set ?idx. nat (int bs + i) \<noteq> j) \<Longrightarrow> r ! j = ?zero ! j"
    by blast
  have l8: "length r = 8" using lr by (simp add: MAX_NUMBER_OF_CAN_DATA_BYTES_def)
  have "r ! b = (if bs \<le> b \<and> b < bs + nb then source ! (7 - (b - bs)) else 0)" if b8: "b < 8" for b
  proof (cases "bs \<le> b \<and> b < bs + nb")
    case True
    then have "int (b - bs) \<in> set ?idx" by (simp add: mem)
    from moved [OF this]
    have "r ! nat (int bs + int (b - bs)) = source ! nat (?orig (int (b - bs)))" .
    moreover have "nat (int bs + int (b - bs)) = b" using True by simp
    moreover have "nat (?orig (int (b - bs))) = 7 - (b - bs)"
      using b8 by (simp add: MAX_NUMBER_OF_CAN_DATA_BYTES_def)
    ultimately show ?thesis using True by simp
  next
    case False
    have "\<forall>k\<in>set ?idx. nat (int bs + k) \<noteq> b"
    proof
      fix k assume "k \<in> set ?idx"
      then have k: "0 \<le> k" "k < int nb" by (simp_all add: mem)
      then have "nat (int bs + k) = bs + nat k" by (simp add: nat_add_distrib)
      moreover have "nat k < nb" using k by linarith
      ultimately show "nat (int bs + k) \<noteq> b" using False by linarith
    qed
    from rest [OF this] have "r ! b = 0"
      using b8 by (simp add: MAX_NUMBER_OF_CAN_DATA_BYTES_def)
    with False show ?thesis by auto
  qed
  with r l8 show ?thesis by blast
qed


lemma shiftedvalue_big:
  assumes "sb < 64" "backward sb + n \<le> 64" "0 \<le> v" "v < 2 ^ n"
  shows "\<exists>r. get_shiftedvalue_from_busvalue v BIG_ENDIAN (int n) (int sb) = Inr r
      \<and> 0 \<le> r \<and> r < 2 ^ 64
      \<and> (\<forall>j. bit r j \<longleftrightarrow> backward sb \<le> j \<and> bit v (j - backward sb))"
proof -
  let ?r = "push_bit (backward sb) v"
  have g: "get_shiftedvalue_from_busvalue v BIG_ENDIAN (int n) (int sb) = Inr ?r"
    using assms(1) by (simp add: get_shiftedvalue_from_busvalue_def calculate_backward_bitnumber_nat)
  have "?r < 2 ^ (backward sb + n)" using assms(3,4) by (rule push_bit_bounds)
  also have "\<dots> \<le> 2 ^ 64" using assms(2) by (intro power_increasing) simp_all
  finally have "?r < 2 ^ 64" .
  moreover have "0 \<le> ?r" using assms(3) by simp
  moreover have "bit ?r j \<longleftrightarrow> backward sb \<le> j \<and> bit v (j - backward sb)" for j
    by (simp add: bit_push_bit_iff)
  ultimately show ?thesis using g by blast
qed

lemma shiftedvalue_little:
  fixes sb n :: nat
  assumes n: "1 \<le> n" and fit: "sb + n \<le> 64" and v: "0 \<le> v" "v < 2 ^ n"
  shows "\<exists>r. get_shiftedvalue_from_busvalue v LITTLE_ENDIAN (int n) (int sb) = Inr r
      \<and> 0 \<le> r \<and> r < 2 ^ 64
      \<and> (\<forall>p<64. bit r (backward p) \<longleftrightarrow> sb \<le> p \<and> bit v (p - sb))"
proof -
  define bs where "bs = sb div 8"
  define st where "st = (sb + n - 1) div 8"
  define steps where "steps = sb mod 8"
  define nb where "nb = st - bs + 1"
  note i = little_endian_bytes [OF n, of sb, folded bs_def st_def steps_def nb_def]
  have sb: "sb = 8 * bs + steps" by (simp add: bs_def steps_def)
  have sb64: "sb < 64" using n fit by simp
  have st8: "st < 8" using fit n by (simp add: st_def)
  have bs8: "bs < 8" using i(5) st8 by simp
  have bsnb: "bs + nb \<le> 8" using i(5) st8 by (simp add: nb_def)
  have steps8: "steps < 8" by (simp add: steps_def)
  let ?P = "push_bit steps v"
  have P0: "0 \<le> ?P" using v(1) by simp
  have "?P < 2 ^ (steps + n)" using v by (rule push_bit_bounds)
  also have "\<dots> \<le> 2 ^ 64"
  proof (rule power_increasing)
    have "steps \<le> sb" by (simp add: steps_def)
    with fit show "steps + n \<le> 64" by simp
  qed simp
  finally have P64: "?P < 2 ^ 64" .
  let ?psb = "int_to_bytes_be 8 ?P"
  have pb: "int_to_can_bytes (int MAX_NUMBER_OF_CAN_DATA_BYTES) ?P = Inr ?psb"
    using int_to_can_bytes_ok [OF P0 P64, of 8] by (simp add: MAX_NUMBER_OF_CAN_DATA_BYTES_def)
  have "length ?psb = 8" by simp
  from reshuffle_from_right [OF bsnb this] obtain r where
    r: "reshuffle (\<lambda>i. int MAX_NUMBER_OF_CAN_DATA_BYTES - 1 - i) (\<lambda>i. int bs + i) ?psb
            (py_range 0 (int nb)) (replicate MAX_NUMBER_OF_CAN_DATA_BYTES 0) = Inr r"
    and lr: "length r = 8"
    and rbyte: "\<forall>b<8. r ! b = (if bs \<le> b \<and> b < bs + nb then ?psb ! (7 - (b - bs)) else 0)"
    by blast
  let ?R = "bytes_to_int_be (ljust 8 r)"
  have c: "can_bytes_to_int r = Inr ?R"
    using lr by (simp add: can_bytes_to_int_ok)
  have bw: "calculate_backward_bitnumber (int sb) = Inr (int (backward sb))"
    using sb64 by (rule calculate_backward_bitnumber_nat)
  have bm: "int (backward sb) mod BITS_PER_BYTE = int steps"
  proof -
    have "int (backward sb) mod 8 = int (backward sb mod 8)" by (simp only: zmod_int of_nat_numeral)
    also have "\<dots> = int (sb mod 8)" by (simp only: backward_mod)
    finally show ?thesis by (simp only: BITS_PER_BYTE_def steps_def)
  qed
  have r': "reshuffle ((-) 7) ((+) (int bs)) ?psb (py_range 0 (int nb)) (replicate 8 0) = Inr r"
    using r by (simp add: MAX_NUMBER_OF_CAN_DATA_BYTES_def)
  have g: "get_shiftedvalue_from_busvalue v LITTLE_ENDIAN (int n) (int sb) = Inr ?R"
    unfolding get_shiftedvalue_from_busvalue_def bw and_then_Inr Let_def bm i(1) i(2) i(3)
    using st8 pb
    by (simp add: r' c MAX_NUMBER_OF_CAN_DATA_BYTES_def)
  have bits: "bit ?R (backward p) \<longleftrightarrow> sb \<le> p \<and> bit v (p - sb)" if p: "p < 64" for p
  proof -
    define b where "b = p div 8"
    define t where "t = p mod 8"
    have pbt: "p = 8 * b + t" by (simp add: b_def t_def)
    have b8: "b < 8" using p by (simp add: b_def)
    have t8: "t < 8" by (simp add: t_def)
    have "bit ?R (backward p) \<longleftrightarrow> payload_bit r (backward (backward p))"
      using lr backward_less [of p] by (simp add: bit_padded_payload)
    also have "\<dots> \<longleftrightarrow> bit (r ! b) t"
      using p b8 lr by (simp add: backward_backward payload_bit_def b_def t_def)
    finally have R: "bit ?R (backward p) \<longleftrightarrow> bit (r ! b) t" .
    show ?thesis
    proof (cases "bs \<le> b \<and> b < bs + nb")
      case True
      then have idx: "7 - (b - bs) < 8" by linarith
      have e: "8 * (8 - 1 - (7 - (b - bs))) + t = p - 8 * bs"
      proof -
        have "8 - 1 - (7 - (b - bs)) = b - bs" using True b8 by linarith
        moreover have "8 * (b - bs) + t = 8 * b + t - 8 * bs" using True by linarith
        ultimately show ?thesis by (simp only: pbt)
      qed
      have "bit (r ! b) t \<longleftrightarrow> bit (?psb ! (7 - (b - bs))) t"
        using rbyte b8 True by simp
      also have "\<dots> \<longleftrightarrow> bit (word_of_int (drop_bit (8 * (8 - 1 - (7 - (b - bs)))) ?P) :: byte) t"
        using idx by (simp only: nth_int_to_bytes_be)
      also have "\<dots> \<longleftrightarrow> bit ?P (8 * (8 - 1 - (7 - (b - bs))) + t)"
        using t8 by (simp add: bit_word_of_int_iff bit_drop_bit_eq)
      also have "\<dots> \<longleftrightarrow> bit ?P (p - 8 * bs)" by (simp only: e)
      also have "\<dots> \<longleftrightarrow> steps \<le> p - 8 * bs \<and> bit v (p - 8 * bs - steps)"
        by (simp add: bit_push_bit_iff)
      also have "\<dots> \<longleftrightarrow> sb \<le> p \<and> bit v (p - sb)"
      proof -
        have "8 * bs \<le> p" using True by (simp add: pbt)
        then have "steps \<le> p - 8 * bs \<longleftrightarrow> sb \<le> p" by (simp add: sb) linarith
        moreover have "p - 8 * bs - steps = p - sb" by (simp add: sb)
        ultimately show ?thesis by simp
      qed
      finally show ?thesis using R by simp
    next
      case False
      then have z: "\<not> bit (r ! b) t" using rbyte b8 by auto
      have "\<not> (sb \<le> p \<and> bit v (p - sb))"
      proof
        assume a: "sb \<le> p \<and> bit v (p - sb)"
        then have "p - sb < n" using v bit_imp_less_width by blast
        with a have "p \<le> sb + n - 1" by simp
        then have "p div 8 \<le> st" unfolding st_def by (rule div_le_mono)
        then have "b < bs + nb" using i(5) by (simp add: b_def nb_def)
        moreover have "bs \<le> b" unfolding bs_def b_def using a by (intro div_le_mono) simp
        ultimately show False using False by simp
      qed
      with z R show ?thesis by simp
    qed
  qed
  have "0 \<le> ?R \<and> ?R < 2 ^ 64" using lr padded_payload_bounds [of r] by linarith
  with g bits show ?thesis by blast
qed

subsection \<open>Writing a field\<close>

lemma valid_layoutD:
  assumes "valid_layout S"
  defines "sb \<equiv> nat (startbit S)" and "n \<equiv> nat (numberofbits S)"
  shows "startbit S = int sb" and "numberofbits S = int n" and "1 \<le> n" and "n \<le> 64"
    and "sb < 64"
    and "endianness S = LITTLE_ENDIAN \<Longrightarrow> sb + n \<le> 64"
    and "endianness S = BIG_ENDIAN \<Longrightarrow> backward sb + n \<le> 64"
    and "signaltype S = CAN_SIGNALTYPE_SINGLE \<Longrightarrow> n = 32"
    and "signaltype S = CAN_SIGNALTYPE_DOUBLE \<Longrightarrow> n = 64"
proof -
  have s: "0 \<le> startbit S" "startbit S \<le> 63"
    and c: "check_numberofbits (endianness S) (signaltype S) (startbit S) (numberofbits S) = Inr ()"
    using assms(1) by (simp_all add: valid_layout_def BITS_IN_FULL_DATA_def)
  show sb: "startbit S = int sb" "sb < 64" using s by (simp_all add: sb_def)
  have nn: "0 < numberofbits S \<and> numberofbits S \<le> 64"
    using c by (simp add: check_numberofbits_def BITS_IN_FULL_DATA_def split: if_splits)
  then show n: "numberofbits S = int n" "1 \<le> n" "n \<le> 64" unfolding n_def by linarith+
  have bw: "calculate_backward_bitnumber (int sb) = Inr (int (backward sb))"
    using sb(2) by (rule calculate_backward_bitnumber_nat)
  show "sb + n \<le> 64" if "endianness S = LITTLE_ENDIAN"
    using c that nn by (simp add: check_numberofbits_def BITS_IN_FULL_DATA_def sb(1) n(1)
        split: if_splits)
  show "backward sb + n \<le> 64" if "endianness S = BIG_ENDIAN"
    using c that nn by (simp add: check_numberofbits_def BITS_IN_FULL_DATA_def sb(1) n(1) bw
        split: if_splits)
  show "n = 32" if "signaltype S = CAN_SIGNALTYPE_SINGLE"
    using c that nn by (simp add: check_numberofbits_def BITS_IN_FULL_DATA_def sb(1) n(1) bw
        BITS_IN_SINGLE_PRECISION_FLOAT_def split: if_splits)
  show "n = 64" if "signaltype S = CAN_SIGNALTYPE_DOUBLE"
    using c that nn by (simp add: check_numberofbits_def BITS_IN_FULL_DATA_def sb(1) n(1) bw
        BITS_IN_DOUBLE_PRECISION_FLOAT_def split: if_splits)
qed

lemma shiftedvalue_spec:
  assumes vl: "valid_layout S" and v: "0 \<le> v" "v < 2 ^ nat (numberofbits S)"
  shows "\<exists>r. get_shiftedvalue_from_busvalue v (endianness S) (numberofbits S) (startbit S) = Inr r
      \<and> 0 \<le> r \<and> r < 2 ^ 64
      \<and> (\<forall>p<64. bit r (backward p) \<longleftrightarrow> occupies S p \<and> bit v (value_index S p))"
proof -
  define sb where "sb = nat (startbit S)"
  define n where "n = nat (numberofbits S)"
  note l = valid_layoutD [OF vl, folded sb_def n_def]
  have vn: "v < 2 ^ n" using v(2) l(2) by simp
  show ?thesis
  proof (cases "endianness S")
    case LITTLE_ENDIAN
    from shiftedvalue_little [OF l(3) l(6) [OF LITTLE_ENDIAN] v(1) vn] obtain r where
      r: "get_shiftedvalue_from_busvalue v LITTLE_ENDIAN (int n) (int sb) = Inr r"
        "0 \<le> r" "r < 2 ^ 64"
        "\<forall>p<64. bit r (backward p) \<longleftrightarrow> sb \<le> p \<and> bit v (p - sb)"
      by blast
    have "bit r (backward p) \<longleftrightarrow> occupies S p \<and> bit v (value_index S p)" if "p < 64" for p
    proof -
      have "bit v (p - sb) \<Longrightarrow> p - sb < n" using v(1) vn by (rule bit_imp_less_width)
      then have "sb \<le> p \<and> bit v (p - sb) \<longleftrightarrow> (sb \<le> p \<and> p - sb < n) \<and> bit v (p - sb)" by blast
      moreover have "occupies S p \<longleftrightarrow> sb \<le> p \<and> p - sb < n"
        using l(3) that by (simp add: occupies_def BITS_IN_FULL_DATA_def LITTLE_ENDIAN l(1,2)) linarith
      ultimately show ?thesis using r(4) that by (simp add: value_index_def LITTLE_ENDIAN l(1))
    qed
    with r(1,2,3) show ?thesis by (simp add: LITTLE_ENDIAN l(1,2))
  next
    case BIG_ENDIAN
    from shiftedvalue_big [OF l(5) l(7) [OF BIG_ENDIAN] v(1) vn] obtain r where
      r: "get_shiftedvalue_from_busvalue v BIG_ENDIAN (int n) (int sb) = Inr r"
        "0 \<le> r" "r < 2 ^ 64"
        "\<forall>j. bit r j \<longleftrightarrow> backward sb \<le> j \<and> bit v (j - backward sb)"
      by blast
    have "bit r (backward p) \<longleftrightarrow> occupies S p \<and> bit v (value_index S p)" if "p < 64" for p
    proof -
      let ?j = "backward p" and ?b = "backward sb"
      have "bit v (?j - ?b) \<Longrightarrow> ?j - ?b < n" using v(1) vn by (rule bit_imp_less_width)
      then have "?b \<le> ?j \<and> bit v (?j - ?b) \<longleftrightarrow> (?b \<le> ?j \<and> ?j - ?b < n) \<and> bit v (?j - ?b)"
        by blast
      moreover have "occupies S p \<longleftrightarrow> ?b \<le> ?j \<and> ?j - ?b < n"
        using l(3) that by (simp add: occupies_def BITS_IN_FULL_DATA_def BIG_ENDIAN l(1,2)) linarith
      ultimately show ?thesis using r(4) by (simp add: value_index_def BIG_ENDIAN l(1))
    qed
    with r(1,2,3) show ?thesis by (simp add: BIG_ENDIAN l(1,2))
  qed
qed


lemma occupies_less: "occupies S p \<Longrightarrow> p < 64"
  by (simp add: occupies_def BITS_IN_FULL_DATA_def)

lemma occupies_dlc:
  assumes vl: "valid_layout S" and o: "occupies S p" and d: "get_minimum_dlc S \<le> int dl"
  shows "p < 8 * dl"
proof -
  define sb where "sb = nat (startbit S)"
  define n where "n = nat (numberofbits S)"
  note l = valid_layoutD [OF vl, folded sb_def n_def]
  have p: "p < 64" using o by (rule occupies_less)
  show ?thesis
  proof (cases "endianness S")
    case LITTLE_ENDIAN
    have "int p \<le> int sb + int n - 1" using o by (simp add: occupies_def LITTLE_ENDIAN l(1,2))
    then have "int p div 8 \<le> (int sb + int n - 1) div 8" by (rule zdiv_mono1) simp
    moreover have "(int sb + int n - 1) div 8 + 1 \<le> int dl"
      using d by (simp add: get_minimum_dlc_def LITTLE_ENDIAN l(1,2) BITS_PER_BYTE_def)
    ultimately have "int p div 8 < int dl" by linarith
    then show ?thesis by linarith
  next
    case BIG_ENDIAN
    have "backward sb \<le> backward p" using o by (simp add: occupies_def BIG_ENDIAN l(1,2))
    then have "backward sb div 8 \<le> backward p div 8" by (rule div_le_mono)
    then have "7 - sb div 8 \<le> 7 - p div 8" using p l(5) by (simp add: backward_div)
    moreover have "p div 8 < 8" "sb div 8 < 8" using p l(5) by simp_all
    ultimately have "p div 8 \<le> sb div 8" by linarith
    moreover have "int sb div 8 + 1 \<le> int dl"
      using d by (simp add: get_minimum_dlc_def BIG_ENDIAN l(1,2) BITS_PER_BYTE_def)
    then have "sb div 8 < dl" by linarith
    ultimately show ?thesis by linarith
  qed
qed

lemma write_bus_value_guard:
  assumes "write_bus_value f S v = Inr f'"
  shows "0 \<le> numberofbits S" "0 \<le> v" "v < 2 ^ nat (numberofbits S)"
  using assms by (simp_all add: write_bus_value_def split: if_splits)

lemma write_bus_value_spec:
  assumes vl: "valid_layout S" and len: "length (frame_data f) \<le> 8"
    and d: "get_minimum_dlc S \<le> int (length (frame_data f))"
    and v: "0 \<le> v" "v < 2 ^ nat (numberofbits S)"
  shows "\<exists>new_data. write_bus_value f S v = Inr (f\<lparr>frame_data := new_data\<rparr>)
      \<and> length new_data = length (frame_data f)
      \<and> (\<forall>p. payload_bit new_data p \<longleftrightarrow>
            (if occupies S p then bit v (value_index S p) else payload_bit (frame_data f) p))"
proof -
  define n where "n = nat (numberofbits S)"
  define dl where "dl = length (frame_data f)"
  define sb where "sb = nat (startbit S)"
  note l = valid_layoutD [OF vl, folded sb_def n_def]
  from shiftedvalue_spec [OF vl v] obtain bv where
    bv: "get_shiftedvalue_from_busvalue v (endianness S) (numberofbits S) (startbit S) = Inr bv"
      "0 \<le> bv" "bv < 2 ^ 64"
      "\<forall>p<64. bit bv (backward p) \<longleftrightarrow> occupies S p \<and> bit v (value_index S p)"
    by blast
  have om: "ones_mask (numberofbits S) = Inr (mask n)" by (simp add: l(2) ones_mask_nat)
  have "(0::int) \<le> mask n" "(mask n :: int) < 2 ^ nat (numberofbits S)"
    by (simp_all add: n_def mask_eq_exp_minus_1)
  from shiftedvalue_spec [OF vl this] obtain m where
    m: "get_shiftedvalue_from_busvalue (mask n) (endianness S) (numberofbits S) (startbit S) = Inr m"
      "0 \<le> m" "m < 2 ^ 64"
      "\<forall>p<64. bit m (backward p) \<longleftrightarrow> occupies S p \<and> bit (mask n :: int) (value_index S p)"
    by blast
  have mb: "bit m (backward p) \<longleftrightarrow> occupies S p" if p: "p < 64" for p
  proof -
    have "bit (mask n :: int) (value_index S p)" if "occupies S p"
    proof (cases "endianness S")
      case LITTLE_ENDIAN
      then show ?thesis using that l(3)
        by (simp add: bit_mask_iff value_index_def occupies_def l(1,2)) linarith
    next
      case BIG_ENDIAN
      then show ?thesis using that l(3)
        by (simp add: bit_mask_iff value_index_def occupies_def l(1,2)) linarith
    qed
    then show ?thesis using m(4) p by blast
  qed
  let ?D = "bytes_to_int_be (ljust 8 (frame_data f))"
  have di: "can_bytes_to_int (frame_data f) = Inr ?D" using len by (rule can_bytes_to_int_ok)
  have D: "0 \<le> ?D" "?D < 2 ^ 64" using padded_payload_bounds [OF len] by simp_all
  let ?N = "(?D AND NOT m) OR bv"
  have N0: "0 \<le> ?N" using D(1) bv(2) by simp
  have N64: "?N < 2 ^ 64"
  proof -
    have "?D AND NOT m \<le> ?D" using D(1) by (rule AND_upper1)
    then have a: "?D AND NOT m < 2 ^ 64" using D(2) by linarith
    have b: "0 \<le> ?D AND NOT m" using D(1) by simp
    show ?thesis using b a bv(3) by (rule OR_upper)
  qed
  let ?new = "take dl (int_to_bytes_be 8 ?N)"
  have ib: "int_to_can_bytes (int dl) ?N = Inr ?new"
    using N0 N64 len unfolding dl_def by (rule int_to_can_bytes_ok)
  have ln: "length ?new = dl" using len by (simp add: dl_def)
  have vle: "v \<le> 2 ^ nat (numberofbits S) - 1" using v(2) by simp
  have n0: "\<not> numberofbits S < 0" by (simp add: l(2))
  have w: "write_bus_value f S v = Inr (f\<lparr>frame_data := ?new\<rparr>)"
    unfolding write_bus_value_def using n0 vle v(1) ln
    by (simp add: bv(1) om m(1) di Let_def ib [unfolded dl_def]
        MAX_NUMBER_OF_CAN_DATA_BYTES_def dl_def)
  have bits: "payload_bit ?new p \<longleftrightarrow>
      (if occupies S p then bit v (value_index S p) else payload_bit (frame_data f) p)" for p
  proof (cases "p < 64")
    case True
    have pb: "payload_bit ?new p \<longleftrightarrow> p < 8 * dl \<and> bit ?N (backward p)"
      using len unfolding dl_def by (rule payload_bit_int_to_bytes)
    have dbit: "bit ?D (backward p) \<longleftrightarrow> payload_bit (frame_data f) p"
      using len True backward_less [of p] by (simp add: bit_padded_payload backward_backward)
    show ?thesis
    proof (cases "occupies S p")
      case o: True
      have "p < 8 * dl" using vl o d unfolding dl_def by (rule occupies_dlc)
      then show ?thesis using o pb mb [OF True] bv(4) True
        by (simp add: bit_or_iff bit_and_iff bit_not_iff)
    next
      case o: False
      have "payload_bit (frame_data f) p \<Longrightarrow> p < 8 * dl"
        unfolding payload_bit_def dl_def by linarith
      then show ?thesis using o pb mb [OF True] bv(4) True dbit
        by (auto simp add: bit_or_iff bit_and_iff bit_not_iff)
    qed
  next
    case False
    then have "\<not> occupies S p" using occupies_less by blast
    moreover have "8 \<le> p div 8" using False by linarith
    then have "\<not> p div 8 < length ?new" "\<not> p div 8 < length (frame_data f)"
      using len by simp_all
    then have "\<not> payload_bit ?new p" "\<not> payload_bit (frame_data f) p"
      unfolding payload_bit_def by blast+
    ultimately show ?thesis by simp
  qed
  show ?thesis using w ln bits unfolding dl_def by blast
qed


lemma set_signalvalue_success:
  assumes "set_signalvalue f S v = Inr f'"
  shows "get_minimum_dlc S \<le> int (length (frame_data f))"
    and "\<exists>limited. write_physical_value f S limited = Inr f'"
proof -
  show "get_minimum_dlc S \<le> int (length (frame_data f))"
    using assms by (simp add: set_signalvalue_def split: if_splits)
  show "\<exists>limited. write_physical_value f S limited = Inr f'"
    using assms
    by (auto simp add: set_signalvalue_def and_then_eq_Inr split: if_splits option.splits)
qed

lemma write_physical_value_success:
  assumes "write_physical_value f S limited = Inr f'"
  shows "(signaltype S = CAN_SIGNALTYPE_DOUBLE
          \<and> (\<exists>x. f' = f\<lparr>frame_data := pack_double (endianness S) x\<rparr>))
       \<or> (signaltype S \<noteq> CAN_SIGNALTYPE_DOUBLE \<and> (\<exists>bus_value. write_bus_value f S bus_value = Inr f'))"
  using assms
  by (cases "signaltype S = CAN_SIGNALTYPE_DOUBLE")
    (auto simp add: write_physical_value_def and_then_eq_Inr)

lemma length_pack_double: "length (pack_double order x) = 8"
  by (cases order) (simp_all add: pack_double_def)

lemma double_layout:
  assumes vl: "valid_layout S" and t: "signaltype S = CAN_SIGNALTYPE_DOUBLE"
  shows "get_minimum_dlc S = 8" and "p < 64 \<Longrightarrow> occupies S p"
proof -
  define sb where "sb = nat (startbit S)"
  define n where "n = nat (numberofbits S)"
  note l = valid_layoutD [OF vl, folded sb_def n_def]
  have n: "n = 64" using t by (rule l(9))
  have le: "sb = 0" if "endianness S = LITTLE_ENDIAN" using l(6) [OF that] n by simp
  have be: "backward sb = 0" if "endianness S = BIG_ENDIAN" using l(7) [OF that] n by simp
  have be': "sb = 56" if e: "endianness S = BIG_ENDIAN"
  proof -
    have "backward (backward sb) = sb" using l(5) by (rule backward_backward)
    moreover have "backward 0 = 56" by (simp add: backward_def)
    ultimately show ?thesis by (simp only: be [OF e])
  qed
  show "get_minimum_dlc S = 8"
    by (cases "endianness S")
      (simp_all add: get_minimum_dlc_def l(1,2) n le be' BITS_PER_BYTE_def)
  show "occupies S p" if "p < 64"
  proof (cases "endianness S")
    case LITTLE_ENDIAN
    then show ?thesis using that
      by (simp add: occupies_def BITS_IN_FULL_DATA_def l(1,2) n le)
  next
    case BIG_ENDIAN
    have "backward p < 64" by (rule backward_less)
    then show ?thesis using that BIG_ENDIAN
      by (simp add: occupies_def BITS_IN_FULL_DATA_def l(1,2) n be)
  qed
qed

lemma set_signalvalue_unsigned:
  assumes "scalingfactor S = Fin 1" "valueoffset S = Fin 0"
    "signaltype S = CAN_SIGNALTYPE_UNSIGNED" "0 \<le> numberofbits S" "numberofbits S \<le> 53"
    "get_minimum_dlc S \<le> int (length (frame_data f))"
    "0 \<le> v" "v \<le> 2 ^ nat (numberofbits S) - 1"
    "limit_to_min_max S (PyInt v) = PyInt v"
  shows "set_signalvalue f S (Some (PyInt v)) = write_bus_value f S v"
proof -
  have "(2::int) ^ nat (numberofbits S) \<le> 2 ^ 53"
    using assms(4,5) by (intro power_increasing) simp_all
  then have b: "\<bar>v\<bar> \<le> 2 ^ 53" using assms(7,8) by simp
  have w: "write_physical_value f S (PyInt v) = write_bus_value f S v"
    using assms(1,2,3) b by (rule write_physical_value_unsigned)
  have "rat_of_int v \<le> rat_of_int (2 ^ nat (numberofbits S) - 1)"
    using assms(8) by (simp only: of_int_le_iff)
  then have r: "\<not> 2 ^ nat (numberofbits S) - 1 < rat_of_int v" by simp
  show ?thesis
    using assms(6,7,9) r possible_values_unsigned [OF assms(1-5)] w
    by (simp add: set_signalvalue_def py_lt_def py_gt_def)
qed

lemma valid_layout_testsignal2: "valid_layout testsignal2"
  by (simp add: valid_layout_def testsignal2_def BITS_IN_FULL_DATA_def check_numberofbits_def
      calculate_backward_bitnumber_def BITS_PER_BYTE_def MAX_NUMBER_OF_CAN_DATA_BYTES_def)

lemma write_bus_value_testsignal2:
  "write_bus_value \<lparr>frame_id = 7, frame_data = [255, 255, 255, 255, 255, 255, 255, 255],
        frame_format = CAN_FRAMEFORMAT_STANDARD\<rparr> testsignal2 4660
     = Inr \<lparr>frame_id = 7, frame_data = [18, 52, 255, 255, 255, 255, 255, 255],
        frame_format = CAN_FRAMEFORMAT_STANDARD\<rparr>"
  by code_simp

text \<open>
  C5. A successful \<^verbatim>\<open>set_signalvalue\<close> for a signal \<open>A\<close> leaves every payload bit at a
  position that \<open>A\<close> does not occupy as it was, for every signal type and both byte
  orders; the payload keeps its length, and the frame its id and format. The signal has a
  layout that the setters of \<^verbatim>\<open>startbit\<close> and \<^verbatim>\<open>numberofbits\<close> accept, and the payload
  at most eight bytes, as the setter of \<^verbatim>\<open>frame_data\<close> demands.
\<close>

theorem set_signalvalue_frame_condition:
  assumes vl: "valid_layout A" and len: "length (frame_data f) \<le> 8"
    and ok: "set_signalvalue f A v = Inr f'"
  shows "frame_id f' = frame_id f \<and> frame_format f' = frame_format f
       \<and> length (frame_data f') = length (frame_data f)
       \<and> (\<forall>p. \<not> occupies A p \<longrightarrow>
             payload_bit (frame_data f') p = payload_bit (frame_data f) p)"
proof -
  have d: "get_minimum_dlc A \<le> int (length (frame_data f))"
    using ok by (rule set_signalvalue_success(1))
  obtain limited where "write_physical_value f A limited = Inr f'"
    using set_signalvalue_success(2) [OF ok] by blast
  then consider
    (double) x where "signaltype A = CAN_SIGNALTYPE_DOUBLE"
      "f' = f\<lparr>frame_data := pack_double (endianness A) x\<rparr>"
    | (field) bus_value where "write_bus_value f A bus_value = Inr f'"
    using write_physical_value_success by blast
  then show ?thesis
  proof cases
    case double
    have l8: "length (frame_data f) = 8"
      using d len double_layout(1) [OF vl double(1)] by simp
    have "payload_bit (frame_data f') p = payload_bit (frame_data f) p" if "\<not> occupies A p" for p
    proof -
      have "\<not> p < 64" using that double_layout(2) [OF vl double(1)] by blast
      then have "8 \<le> p div 8" by linarith
      then show ?thesis
        by (simp add: payload_bit_def double(2) length_pack_double l8)
    qed
    then show ?thesis by (simp add: double(2) length_pack_double l8)
  next
    case field
    have b: "0 \<le> bus_value" "bus_value < 2 ^ nat (numberofbits A)"
      using write_bus_value_guard [OF field] by simp_all
    from write_bus_value_spec [OF vl len d b] field obtain new_data where
      n: "f' = f\<lparr>frame_data := new_data\<rparr>" "length new_data = length (frame_data f)"
        "\<forall>p. payload_bit new_data p \<longleftrightarrow>
            (if occupies A p then bit bus_value (value_index A p)
             else payload_bit (frame_data f) p)"
      by auto
    show ?thesis using n(2,3) by (simp add: n(1))
  qed
qed

theorem set_signalvalue_frame_condition_witness:
  "valid_layout testsignal2
   \<and> set_signalvalue \<lparr>frame_id = 7, frame_data = [255, 255, 255, 255, 255, 255, 255, 255],
        frame_format = CAN_FRAMEFORMAT_STANDARD\<rparr> testsignal2 (Some (PyInt 4660))
     = Inr \<lparr>frame_id = 7, frame_data = [18, 52, 255, 255, 255, 255, 255, 255],
        frame_format = CAN_FRAMEFORMAT_STANDARD\<rparr>
   \<and> \<not> occupies testsignal2 16
   \<and> payload_bit [18, 52, 255, 255, 255, 255, 255, 255] 16
   \<and> payload_bit [255, 255, 255, 255, 255, 255, 255, 255] 16"
proof -
  let ?f = "\<lparr>frame_id = 7, frame_data = [255, 255, 255, 255, 255, 255, 255, 255],
        frame_format = CAN_FRAMEFORMAT_STANDARD\<rparr>"
  let ?f' = "\<lparr>frame_id = 7, frame_data = [18, 52, 255, 255, 255, 255, 255, 255],
        frame_format = CAN_FRAMEFORMAT_STANDARD\<rparr>"
  have s: "set_signalvalue ?f testsignal2 (Some (PyInt 4660)) = Inr ?f'"
    using set_signalvalue_unsigned [of testsignal2 ?f 4660] write_bus_value_testsignal2
    by (simp add: testsignal2_def get_minimum_dlc_def BITS_PER_BYTE_def limit_to_min_max_def)
  have o: "\<not> occupies testsignal2 16"
    by (simp add: occupies_def testsignal2_def backward_def BITS_IN_FULL_DATA_def)
  have "payload_bit [255, 255, 255, 255, 255, 255, 255, 255] 16"
    by (simp add: payload_bit_def)
  then show ?thesis
    using set_signalvalue_frame_condition [OF valid_layout_testsignal2 _ s] o s
      valid_layout_testsignal2
    by simp
qed

subsection \<open>The signal mask\<close>

lemma mark_other_bits_spec:
  assumes "length l = 64" "\<forall>i\<in>set idxs. \<exists>k<64. position i = Inr (int k)"
  shows "\<exists>l'. mark_other_bits position idxs l = Inr l' \<and> length l' = 64
      \<and> (\<forall>k<64. l' ! k \<noteq> CHR '' '' \<longleftrightarrow>
            l ! k \<noteq> CHR '' '' \<or> (\<exists>i\<in>set idxs. position i = Inr (int k)))"
  using assms
proof (induction idxs arbitrary: l)
  case Nil
  then show ?case by simp
next
  case (Cons i rest)
  from Cons.prems(2) obtain k0 where k0: "k0 < 64" "position i = Inr (int k0)" by auto
  let ?l1 = "l[k0 := SYMBOL_OTHER_VALID_BIT]"
  have s: "py_setitem l (int k0) SYMBOL_OTHER_VALID_BIT = Inr ?l1"
    using k0(1) Cons.prems(1) py_setitem_in_range [of "int k0" l] by simp
  have "length ?l1 = 64" using Cons.prems(1) by simp
  moreover have "\<forall>i\<in>set rest. \<exists>k<64. position i = Inr (int k)" using Cons.prems(2) by simp
  ultimately obtain l' where
    l': "mark_other_bits position rest ?l1 = Inr l'" "length l' = 64"
      "\<forall>k<64. l' ! k \<noteq> CHR '' '' \<longleftrightarrow>
            ?l1 ! k \<noteq> CHR '' '' \<or> (\<exists>i\<in>set rest. position i = Inr (int k))"
    using Cons.IH by blast
  have m: "mark_other_bits position (i # rest) l = Inr l'"
    by (simp add: k0(2) s l'(1))
  have "l' ! k \<noteq> CHR '' '' \<longleftrightarrow>
      l ! k \<noteq> CHR '' '' \<or> (\<exists>j\<in>set (i # rest). position j = Inr (int k))" if k: "k < 64" for k
  proof -
    have "?l1 ! k \<noteq> CHR '' '' \<longleftrightarrow> l ! k \<noteq> CHR '' '' \<or> k = k0"
      using k Cons.prems(1) by (cases "k = k0") (simp_all add: SYMBOL_OTHER_VALID_BIT_def)
    moreover have "position i = Inr (int k) \<longleftrightarrow> k = k0" by (auto simp add: k0(2))
    ultimately show ?thesis using l'(3) k by auto
  qed
  with m l'(2) show ?case by blast
qed

lemma mask_of_overview_spec:
  assumes "pos + length str \<le> 64" "0 \<le> acc" "acc < 2 ^ 64"
  shows "0 \<le> mask_of_overview str pos acc \<and> mask_of_overview str pos acc < 2 ^ 64
      \<and> (\<forall>j. bit (mask_of_overview str pos acc) j \<longleftrightarrow>
            bit acc j \<or> (j < 64 \<and> pos \<le> 63 - j \<and> 63 - j - pos < length str
                          \<and> str ! (63 - j - pos) \<noteq> CHR '' ''))"
  using assms
proof (induction str arbitrary: pos acc)
  case Nil
  then show ?case by simp
next
  case (Cons c rest)
  let ?b = "(2::int) ^ (nat BITS_IN_FULL_DATA - 1 - pos)"
  let ?acc = "if c \<noteq> CHR '' '' then acc OR ?b else acc"
  have p: "pos < 64" using Cons.prems(1) by simp
  have e: "nat BITS_IN_FULL_DATA - 1 - pos = 63 - pos" by (simp add: BITS_IN_FULL_DATA_def)
  have "?b < 2 ^ 64" unfolding e by (rule power_strict_increasing) simp_all
  then have "acc OR ?b < 2 ^ 64" using Cons.prems(2,3) by (intro OR_upper)
  then have b: "0 \<le> ?acc" "?acc < 2 ^ 64" using Cons.prems(2,3) by simp_all
  have "Suc pos + length rest \<le> 64" using Cons.prems(1) by simp
  note ih = Cons.IH [OF this b]
  have abit: "bit ?acc j \<longleftrightarrow> bit acc j \<or> (c \<noteq> CHR '' '' \<and> j = 63 - pos)" for j
    unfolding e by (simp add: bit_or_iff bit_exp_iff)
  have "bit (mask_of_overview (c # rest) pos acc) j \<longleftrightarrow>
      bit acc j \<or> (j < 64 \<and> pos \<le> 63 - j \<and> 63 - j - pos < length (c # rest)
                          \<and> (c # rest) ! (63 - j - pos) \<noteq> CHR '' '')" for j
  proof (cases "j < 64 \<and> pos \<le> 63 - j")
    case True
    show ?thesis
    proof (cases "63 - j = pos")
      case z: True
      then have "j = 63 - pos" using True by linarith
      then show ?thesis using ih True z abit [of j] by auto
    next
      case nz: False
      define d where "d = 63 - j - Suc pos"
      have s: "Suc pos \<le> 63 - j" "63 - j - pos = Suc d" "j \<noteq> 63 - pos"
        using True nz unfolding d_def by linarith+
      have "bit (mask_of_overview rest (Suc pos) ?acc) j \<longleftrightarrow>
          bit ?acc j \<or> (j < 64 \<and> Suc pos \<le> 63 - j \<and> d < length rest
                          \<and> rest ! d \<noteq> CHR '' '')"
        unfolding d_def using ih by blast
      then have "bit (mask_of_overview rest (Suc pos) ?acc) j \<longleftrightarrow>
          bit acc j \<or> (d < length rest \<and> rest ! d \<noteq> CHR '' '')"
        using True s(1,3) abit [of j] by simp
      then show ?thesis using True unfolding s(2) by simp
    qed
  next
    case False
    then have "\<not> (j < 64 \<and> Suc pos \<le> 63 - j)" "j \<noteq> 63 - pos" using p by linarith+
    then show ?thesis using ih False abit [of j] by auto
  qed
  then show ?case using ih by simp
qed


lemma calculate_normal_bitnumber_ok:
  assumes "j < 64"
  shows "\<exists>p. calculate_normal_bitnumber (int j) = Inr p"
proof -
  have c: "(int j < 0) = False" "(int j > BITS_IN_FULL_DATA - 1) = False"
    using assms by (simp_all add: BITS_IN_FULL_DATA_def)
  show ?thesis
    unfolding calculate_normal_bitnumber_def Let_def c if_False by (rule exI, rule refl)
qed

lemma backward_eq_iff:
  assumes "a < 64" "b < 64"
  shows "backward a = b \<longleftrightarrow> a = backward b"
proof
  assume "backward a = b"
  then have "backward (backward a) = backward b" by (rule arg_cong)
  then show "a = backward b" by (simp only: backward_backward [OF assms(1)])
next
  assume "a = backward b"
  then have "backward a = backward (backward b)" by (rule arg_cong)
  then show "backward a = b" by (simp only: backward_backward [OF assms(2)])
qed

lemma blank_update:
  assumes "length l = 64" "k < 64" "a < 64" "c \<noteq> CHR '' ''"
  shows "l[a := c] ! k \<noteq> CHR '' '' \<longleftrightarrow> l ! k \<noteq> CHR '' '' \<or> k = a"
  using assms by (cases "k = a") simp_all

lemma overview_little:
  fixes sb n :: nat
  assumes n: "1 \<le> n" and fit: "sb + n \<le> 64"
    and S: "endianness S = LITTLE_ENDIAN" "startbit S = int sb" "numberofbits S = int n"
  shows "\<exists>l sbit. get_overview_string S = Inr (l, sbit) \<and> length l = 64
      \<and> (\<forall>j<64. l ! (63 - j) \<noteq> CHR '' '' \<longleftrightarrow> sb \<le> backward j \<and> backward j \<le> sb + n - 1)"
proof -
  define stop where "stop = sb + n - 1"
  define l0 where "l0 = replicate (nat BITS_IN_FULL_DATA) (CHR '' '')"
  have stop: "stop < 64" "int sb + int n - 1 = int stop" "sb \<le> stop"
    using n fit unfolding stop_def by linarith+
  have sb: "sb < 64" using n fit by linarith
  have l0: "length l0 = 64" "\<And>k. k < 64 \<Longrightarrow> l0 ! k = CHR '' ''"
    by (simp_all add: l0_def BITS_IN_FULL_DATA_def)
  define a where "a = 63 - backward stop"
  define b where "b = 63 - backward sb"
  have a: "a < 64" "BITS_IN_FULL_DATA - 1 - int (backward stop) = int a"
    using backward_less [of stop] unfolding a_def BITS_IN_FULL_DATA_def by linarith+
  have b: "b < 64" "BITS_IN_FULL_DATA - 1 - int (backward sb) = int b"
    using backward_less [of sb] unfolding b_def BITS_IN_FULL_DATA_def by linarith+
  define l1 where "l1 = l0[a := SYMBOL_MOST_SIGNIFICANT_BIT]"
  define l2 where "l2 = l1[b := SYMBOL_LEAST_SIGNIFICANT_BIT]"
  have s1: "py_setitem l0 (int a) SYMBOL_MOST_SIGNIFICANT_BIT = Inr l1"
    using a(1) l0(1) py_setitem_in_range [of "int a" l0] by (simp add: l1_def)
  have len1: "length l1 = 64" by (simp add: l1_def l0(1))
  have s2: "py_setitem l1 (int b) SYMBOL_LEAST_SIGNIFICANT_BIT = Inr l2"
    using b(1) len1 py_setitem_in_range [of "int b" l1] by (simp add: l2_def)
  have len2: "length l2 = 64" by (simp add: l2_def len1)
  have m2: "l2 ! k \<noteq> CHR '' '' \<longleftrightarrow> k = a \<or> k = b" if "k < 64" for k
  proof -
    have "l1 ! k \<noteq> CHR '' '' \<longleftrightarrow> l0 ! k \<noteq> CHR '' '' \<or> k = a"
      unfolding l1_def using l0(1) that a(1)
      by (rule blank_update) (simp add: SYMBOL_MOST_SIGNIFICANT_BIT_def)
    moreover have "l2 ! k \<noteq> CHR '' '' \<longleftrightarrow> l1 ! k \<noteq> CHR '' '' \<or> k = b"
      unfolding l2_def using len1 that b(1)
      by (rule blank_update) (simp add: SYMBOL_LEAST_SIGNIFICANT_BIT_def)
    ultimately show ?thesis using l0(2) [OF that] by simp
  qed
  let ?position = "\<lambda>i. and_then (calculate_backward_bitnumber i)
                        (\<lambda>b. Inr (BITS_IN_FULL_DATA - 1 - b))"
  have pos: "?position (int p) = Inr (int (63 - backward p))" if "p < 64" for p
  proof -
    have "BITS_IN_FULL_DATA - 1 - int (backward p) = int (63 - backward p)"
      using backward_less [of p] unfolding BITS_IN_FULL_DATA_def by linarith
    then show ?thesis using that by (simp add: calculate_backward_bitnumber_nat)
  qed
  define idxs where "idxs = py_range (int sb + 1) (int stop)"
  have idxs: "i \<in> set idxs \<longleftrightarrow> int sb + 1 \<le> i \<and> i \<le> int stop - 1" for i
    by (simp add: idxs_def set_py_range)
  have pall: "\<forall>i\<in>set idxs. \<exists>k<64. ?position i = Inr (int k)"
  proof
    fix i assume "i \<in> set idxs"
    then have r: "int sb + 1 \<le> i" "i \<le> int stop - 1" using idxs [of i] by blast+
    then have "0 \<le> i" by linarith
    then obtain p where p: "i = int p" by (rule nonneg_int_cases)
    have "p < 64" using r(2) stop(1) unfolding p by linarith
    then have "?position (int p) = Inr (int (63 - backward p))" by (rule pos)
    moreover have "63 - backward p < 64" by simp
    ultimately have "63 - backward p < 64 \<and> ?position i = Inr (int (63 - backward p))"
      unfolding p by (intro conjI)
    then show "\<exists>k<64. ?position i = Inr (int k)" by (rule exI)
  qed
  have "\<exists>l'. mark_other_bits ?position idxs l2 = Inr l' \<and> length l' = 64
      \<and> (\<forall>k<64. l' ! k \<noteq> CHR '' '' \<longleftrightarrow>
            l2 ! k \<noteq> CHR '' '' \<or> (\<exists>i\<in>set idxs. ?position i = Inr (int k)))"
    using len2 pall by (rule mark_other_bits_spec)
  then obtain l3 where
    l3: "mark_other_bits ?position idxs l2 = Inr l3" "length l3 = 64"
      "\<forall>k<64. l3 ! k \<noteq> CHR '' '' \<longleftrightarrow>
            l2 ! k \<noteq> CHR '' '' \<or> (\<exists>i\<in>set idxs. ?position i = Inr (int k))"
    by blast
  define l where "l = (if 2 < n then l3 else l2)"
  have g: "get_overview_string S = Inr (l, int stop)"
  proof -
    have c: "and_then (if 2 < int n then mark_other_bits ?position idxs l2 else Inr l2)
               (\<lambda>list3. Inr (list3, int stop)) = Inr (l, int stop)"
      by (cases "2 < n") (simp_all add: l3(1) l_def del: mark_other_bits.simps)
    show ?thesis
      unfolding get_overview_string_def Let_def
      by (simp only: S if_True stop(2) calculate_backward_bitnumber_nat [OF stop(1)]
          calculate_backward_bitnumber_nat [OF sb] and_then_Inr a(2) b(2)
          l0_def [symmetric] s1 s2 idxs_def [symmetric] c simp_thms if_True)
  qed
  have len: "length l = 64" by (simp add: l_def l3(2) len2)
  have marks: "l ! (63 - j) \<noteq> CHR '' '' \<longleftrightarrow> sb \<le> backward j \<and> backward j \<le> sb + n - 1"
    if j: "j < 64" for j
  proof -
    define q where "q = backward j"
    have q: "q < 64" unfolding q_def by (rule backward_less)
    have k: "63 - j < 64" by simp
    have eq: "63 - j = 63 - backward p \<longleftrightarrow> q = p" if "p < 64" for p
    proof -
      have "63 - j = 63 - backward p \<longleftrightarrow> j = backward p"
        using j backward_less [of p] by linarith
      also have "\<dots> \<longleftrightarrow> q = p" unfolding q_def using backward_eq_iff [OF j that] by blast
      finally show ?thesis .
    qed
    have two: "l2 ! (63 - j) \<noteq> CHR '' '' \<longleftrightarrow> q = stop \<or> q = sb"
      using m2 [OF k] eq [OF stop(1)] eq [OF sb] by (simp add: a_def b_def)
    have inner: "(\<exists>i\<in>set idxs. ?position i = Inr (int (63 - j))) \<longleftrightarrow> sb + 1 \<le> q \<and> q + 1 \<le> stop"
    proof
      assume "\<exists>i\<in>set idxs. ?position i = Inr (int (63 - j))"
      then obtain i where i: "i \<in> set idxs" "?position i = Inr (int (63 - j))" ..
      then have r: "int sb + 1 \<le> i" "i \<le> int stop - 1" by (simp_all only: idxs)
      then have "0 \<le> i" by linarith
      then obtain p where p: "i = int p" by (rule nonneg_int_cases)
      have p64: "p < 64" using r(2) stop(1) unfolding p by linarith
      have "Inr (int (63 - j)) = (Inr (int (63 - backward p)) :: error + int)"
        using i(2) [unfolded p] pos [OF p64] by (rule trans [OF sym])
      then have "63 - j = 63 - backward p" by (simp only: sum.inject of_nat_eq_iff)
      then have "q = p" by (simp only: eq [OF p64])
      then show "sb + 1 \<le> q \<and> q + 1 \<le> stop" using r unfolding p by linarith
    next
      assume r: "sb + 1 \<le> q \<and> q + 1 \<le> stop"
      then have "int sb + 1 \<le> int q \<and> int q \<le> int stop - 1" by linarith
      then have m: "int q \<in> set idxs" by (simp only: idxs)
      have "?position (int q) = Inr (int (63 - j))"
        using pos [OF q] eq [OF q] by simp
      then show "\<exists>i\<in>set idxs. ?position i = Inr (int (63 - j))" using m by (rule bexI)
    qed
    have "l ! (63 - j) \<noteq> CHR '' '' \<longleftrightarrow> sb \<le> q \<and> q \<le> stop"
    proof (cases "2 < n")
      case True
      have A: "l3 ! (63 - j) \<noteq> CHR '' '' \<longleftrightarrow>
          l2 ! (63 - j) \<noteq> CHR '' '' \<or> (\<exists>i\<in>set idxs. ?position i = Inr (int (63 - j)))"
        using l3(3) [rule_format, OF k] .
      have "l = l3" using True by (simp add: l_def)
      then have "l ! (63 - j) \<noteq> CHR '' '' \<longleftrightarrow>
          (q = stop \<or> q = sb) \<or> (sb + 1 \<le> q \<and> q + 1 \<le> stop)"
        by (simp only: A two inner)
      also have "\<dots> \<longleftrightarrow> sb \<le> q \<and> q \<le> stop" using stop(3) by linarith
      finally show ?thesis .
    next
      case False
      then have c: "stop = sb \<or> stop = sb + 1" using n unfolding stop_def by linarith
      have "l = l2" using False by (simp add: l_def)
      then have "l ! (63 - j) \<noteq> CHR '' '' \<longleftrightarrow> q = stop \<or> q = sb"
        by (simp only: two)
      also have "\<dots> \<longleftrightarrow> sb \<le> q \<and> q \<le> stop" using c by linarith
      finally show ?thesis .
    qed
    then show ?thesis unfolding q_def stop_def .
  qed
  show ?thesis
  proof (rule exI [of _ l], rule exI [of _ "int stop"], intro conjI allI impI)
    show "get_overview_string S = Inr (l, int stop)" by (rule g)
    show "length l = 64" by (rule len)
    fix j :: nat
    assume "j < 64"
    then show "l ! (63 - j) \<noteq> CHR '' '' \<longleftrightarrow> sb \<le> backward j \<and> backward j \<le> sb + n - 1"
      by (rule marks)
  qed
qed


lemma overview_big:
  fixes sb n :: nat
  assumes n: "1 \<le> n" and sb: "sb < 64" and fit: "backward sb + n \<le> 64"
    and S: "endianness S = BIG_ENDIAN" "startbit S = int sb" "numberofbits S = int n"
  shows "\<exists>l sbit. get_overview_string S = Inr (l, sbit) \<and> length l = 64
      \<and> (\<forall>j<64. l ! (63 - j) \<noteq> CHR '' '' \<longleftrightarrow>
            backward sb \<le> j \<and> j \<le> backward sb + n - 1)"
proof -
  define start where "start = backward sb"
  define stop where "stop = start + n - 1"
  define l0 where "l0 = replicate (nat BITS_IN_FULL_DATA) (CHR '' '')"
  have stop: "stop < 64" "int start + int n - 1 = int stop" "start \<le> stop"
    using n fit unfolding stop_def start_def by linarith+
  have start: "start < 64" using stop(1,3) by linarith
  have bw: "calculate_backward_bitnumber (int sb) = Inr (int start)"
    unfolding start_def using sb by (rule calculate_backward_bitnumber_nat)
  obtain sbit where sbit: "calculate_normal_bitnumber (int stop) = Inr sbit"
    using calculate_normal_bitnumber_ok [OF stop(1)] ..
  have l0: "length l0 = 64" "\<And>k. k < 64 \<Longrightarrow> l0 ! k = CHR '' ''"
    by (simp_all add: l0_def BITS_IN_FULL_DATA_def)
  define a where "a = 63 - stop"
  define b where "b = 63 - start"
  have a: "a < 64" "BITS_IN_FULL_DATA - 1 - int stop = int a"
    using stop(1) unfolding a_def BITS_IN_FULL_DATA_def by linarith+
  have b: "b < 64" "BITS_IN_FULL_DATA - 1 - int start = int b"
    using start unfolding b_def BITS_IN_FULL_DATA_def by linarith+
  define l1 where "l1 = l0[a := SYMBOL_MOST_SIGNIFICANT_BIT]"
  define l2 where "l2 = l1[b := SYMBOL_LEAST_SIGNIFICANT_BIT]"
  have s1: "py_setitem l0 (int a) SYMBOL_MOST_SIGNIFICANT_BIT = Inr l1"
    using a(1) l0(1) py_setitem_in_range [of "int a" l0] by (simp add: l1_def)
  have len1: "length l1 = 64" by (simp add: l1_def l0(1))
  have s2: "py_setitem l1 (int b) SYMBOL_LEAST_SIGNIFICANT_BIT = Inr l2"
    using b(1) len1 py_setitem_in_range [of "int b" l1] by (simp add: l2_def)
  have len2: "length l2 = 64" by (simp add: l2_def len1)
  have m2: "l2 ! k \<noteq> CHR '' '' \<longleftrightarrow> k = a \<or> k = b" if "k < 64" for k
  proof -
    have "l1 ! k \<noteq> CHR '' '' \<longleftrightarrow> l0 ! k \<noteq> CHR '' '' \<or> k = a"
      unfolding l1_def using l0(1) that a(1)
      by (rule blank_update) (simp add: SYMBOL_MOST_SIGNIFICANT_BIT_def)
    moreover have "l2 ! k \<noteq> CHR '' '' \<longleftrightarrow> l1 ! k \<noteq> CHR '' '' \<or> k = b"
      unfolding l2_def using len1 that b(1)
      by (rule blank_update) (simp add: SYMBOL_LEAST_SIGNIFICANT_BIT_def)
    ultimately show ?thesis using l0(2) [OF that] by simp
  qed
  let ?position = "\<lambda>bitnumber_backward. Inr (BITS_IN_FULL_DATA - 1 - bitnumber_backward) :: error + int"
  have pos: "?position (int p) = Inr (int (63 - p))" if "p < 64" for p
  proof -
    have "BITS_IN_FULL_DATA - 1 - int p = int (63 - p)"
      using that unfolding BITS_IN_FULL_DATA_def by linarith
    then show ?thesis by (simp only:)
  qed
  define idxs where "idxs = py_range (int start + 1) (int stop)"
  have idxs: "i \<in> set idxs \<longleftrightarrow> int start + 1 \<le> i \<and> i \<le> int stop - 1" for i
    by (simp add: idxs_def set_py_range)
  have pall: "\<forall>i\<in>set idxs. \<exists>k<64. ?position i = Inr (int k)"
  proof
    fix i assume "i \<in> set idxs"
    then have r: "int start + 1 \<le> i" "i \<le> int stop - 1" using idxs [of i] by blast+
    then have "0 \<le> i" by linarith
    then obtain p where p: "i = int p" by (rule nonneg_int_cases)
    have "p < 64" using r(2) stop(1) unfolding p by linarith
    then have "?position (int p) = Inr (int (63 - p))" by (rule pos)
    moreover have "63 - p < 64" by simp
    ultimately have "63 - p < 64 \<and> ?position i = Inr (int (63 - p))"
      unfolding p by (intro conjI)
    then show "\<exists>k<64. ?position i = Inr (int k)" by (rule exI)
  qed
  have "\<exists>l'. mark_other_bits ?position idxs l2 = Inr l' \<and> length l' = 64
      \<and> (\<forall>k<64. l' ! k \<noteq> CHR '' '' \<longleftrightarrow>
            l2 ! k \<noteq> CHR '' '' \<or> (\<exists>i\<in>set idxs. ?position i = Inr (int k)))"
    using len2 pall by (rule mark_other_bits_spec)
  then obtain l3 where
    l3: "mark_other_bits ?position idxs l2 = Inr l3" "length l3 = 64"
      "\<forall>k<64. l3 ! k \<noteq> CHR '' '' \<longleftrightarrow>
            l2 ! k \<noteq> CHR '' '' \<or> (\<exists>i\<in>set idxs. ?position i = Inr (int k))"
    by blast
  define l where "l = (if 2 < n then l3 else l2)"
  have g: "get_overview_string S = Inr (l, sbit)"
  proof -
    have c: "and_then (if 2 < int n then mark_other_bits ?position idxs l2 else Inr l2)
               (\<lambda>list3. Inr (list3, sbit)) = Inr (l, sbit)"
      by (cases "2 < n") (simp_all add: l3(1) l_def del: mark_other_bits.simps)
    have ne: "(BIG_ENDIAN = LITTLE_ENDIAN) = False" by simp
    show ?thesis
      unfolding get_overview_string_def Let_def
      by (simp only: S ne if_False bw stop(2) sbit and_then_Inr a(2) b(2)
          l0_def [symmetric] s1 s2 idxs_def [symmetric] c)
  qed
  have len: "length l = 64" by (simp add: l_def l3(2) len2)
  have marks: "l ! (63 - j) \<noteq> CHR '' '' \<longleftrightarrow> start \<le> j \<and> j \<le> stop"
    if j: "j < 64" for j
  proof -
    have k: "63 - j < 64" by simp
    have eq: "63 - j = 63 - p \<longleftrightarrow> j = p" if "p < 64" for p
      using j that by linarith
    have two: "l2 ! (63 - j) \<noteq> CHR '' '' \<longleftrightarrow> j = stop \<or> j = start"
      using m2 [OF k] unfolding a_def b_def eq [OF stop(1)] eq [OF start] .
    have inner: "(\<exists>i\<in>set idxs. ?position i = Inr (int (63 - j))) \<longleftrightarrow>
        start + 1 \<le> j \<and> j + 1 \<le> stop"
    proof
      assume "\<exists>i\<in>set idxs. ?position i = Inr (int (63 - j))"
      then obtain i where i: "i \<in> set idxs" "?position i = Inr (int (63 - j))" ..
      then have r: "int start + 1 \<le> i" "i \<le> int stop - 1" by (simp_all only: idxs)
      then have "0 \<le> i" by linarith
      then obtain p where p: "i = int p" by (rule nonneg_int_cases)
      have p64: "p < 64" using r(2) stop(1) unfolding p by linarith
      have "Inr (int (63 - j)) = (Inr (int (63 - p)) :: error + int)"
        using i(2) [unfolded p] pos [OF p64] by (rule trans [OF sym])
      then have "63 - j = 63 - p" by (simp only: sum.inject of_nat_eq_iff)
      then have "j = p" by (simp only: eq [OF p64])
      then show "start + 1 \<le> j \<and> j + 1 \<le> stop" using r unfolding p by linarith
    next
      assume r: "start + 1 \<le> j \<and> j + 1 \<le> stop"
      then have "int start + 1 \<le> int j \<and> int j \<le> int stop - 1" by linarith
      then have m: "int j \<in> set idxs" by (simp only: idxs)
      have "?position (int j) = Inr (int (63 - j))" using j by (rule pos)
      then show "\<exists>i\<in>set idxs. ?position i = Inr (int (63 - j))" using m by (rule bexI)
    qed
    show ?thesis
    proof (cases "2 < n")
      case True
      have A: "l3 ! (63 - j) \<noteq> CHR '' '' \<longleftrightarrow>
          l2 ! (63 - j) \<noteq> CHR '' '' \<or> (\<exists>i\<in>set idxs. ?position i = Inr (int (63 - j)))"
        using l3(3) [rule_format, OF k] .
      have "l = l3" using True by (simp add: l_def)
      then have "l ! (63 - j) \<noteq> CHR '' '' \<longleftrightarrow>
          (j = stop \<or> j = start) \<or> (start + 1 \<le> j \<and> j + 1 \<le> stop)"
        by (simp only: A two inner)
      also have "\<dots> \<longleftrightarrow> start \<le> j \<and> j \<le> stop" using stop(3) by linarith
      finally show ?thesis .
    next
      case False
      then have c: "stop = start \<or> stop = start + 1" using n unfolding stop_def by linarith
      have "l = l2" using False by (simp add: l_def)
      then have "l ! (63 - j) \<noteq> CHR '' '' \<longleftrightarrow> j = stop \<or> j = start"
        by (simp only: two)
      also have "\<dots> \<longleftrightarrow> start \<le> j \<and> j \<le> stop" using c by linarith
      finally show ?thesis .
    qed
  qed
  show ?thesis
  proof (rule exI [of _ l], rule exI [of _ sbit], intro conjI allI impI)
    show "get_overview_string S = Inr (l, sbit)" by (rule g)
    show "length l = 64" by (rule len)
    fix j :: nat
    assume "j < 64"
    then show "l ! (63 - j) \<noteq> CHR '' '' \<longleftrightarrow> backward sb \<le> j \<and> j \<le> backward sb + n - 1"
      using marks unfolding stop_def start_def by blast
  qed
qed

lemma overview_spec:
  assumes vl: "valid_layout S"
  shows "\<exists>l sbit. get_overview_string S = Inr (l, sbit) \<and> length l = 64
      \<and> (\<forall>j<64. l ! (63 - j) \<noteq> CHR '' '' \<longleftrightarrow> occupies S (backward j))"
proof -
  define sb where "sb = nat (startbit S)"
  define n where "n = nat (numberofbits S)"
  note v = valid_layoutD [OF vl, folded sb_def n_def]
  show ?thesis
  proof (cases "endianness S")
    case LITTLE_ENDIAN
    from overview_little [OF v(3) v(6) [OF LITTLE_ENDIAN] LITTLE_ENDIAN v(1) v(2)]
    obtain l sbit where l: "get_overview_string S = Inr (l, sbit)" "length l = 64"
      "\<forall>j<64. l ! (63 - j) \<noteq> CHR '' '' \<longleftrightarrow> sb \<le> backward j \<and> backward j \<le> sb + n - 1"
      by blast
    have "l ! (63 - j) \<noteq> CHR '' '' \<longleftrightarrow> occupies S (backward j)" if "j < 64" for j
    proof -
      have "occupies S (backward j) \<longleftrightarrow> sb \<le> backward j \<and> backward j \<le> sb + n - 1"
        using backward_less [of j] v(3)
        by (simp add: occupies_def BITS_IN_FULL_DATA_def LITTLE_ENDIAN v(1,2)) linarith
      then show ?thesis using l(3) that by blast
    qed
    then show ?thesis using l(1,2) by blast
  next
    case BIG_ENDIAN
    from overview_big [OF v(3) v(5) v(7) [OF BIG_ENDIAN] BIG_ENDIAN v(1) v(2)]
    obtain l sbit where l: "get_overview_string S = Inr (l, sbit)" "length l = 64"
      "\<forall>j<64. l ! (63 - j) \<noteq> CHR '' '' \<longleftrightarrow> backward sb \<le> j \<and> j \<le> backward sb + n - 1"
      by blast
    have "l ! (63 - j) \<noteq> CHR '' '' \<longleftrightarrow> occupies S (backward j)" if "j < 64" for j
    proof -
      have "occupies S (backward j) \<longleftrightarrow> backward sb \<le> j \<and> j \<le> backward sb + n - 1"
        using backward_less [of j] v(3) backward_backward [OF that]
        by (simp add: occupies_def BITS_IN_FULL_DATA_def BIG_ENDIAN v(1,2)) linarith
      then show ?thesis using l(3) that by blast
    qed
    then show ?thesis using l(1,2) by blast
  qed
qed

lemma signal_mask_loop_spec:
  assumes "\<forall>S\<in>set sigs. valid_layout S" "0 \<le> acc" "acc < 2 ^ 64"
  shows "\<exists>r. signal_mask_loop sigs acc = Inr r \<and> 0 \<le> r \<and> r < 2 ^ 64
      \<and> (\<forall>j<64. bit r j \<longleftrightarrow> bit acc j \<or> (\<exists>S\<in>set sigs. occupies S (backward j)))"
  using assms
proof (induction sigs arbitrary: acc)
  case Nil
  then show ?case by simp
next
  case (Cons A rest)
  have "valid_layout A" using Cons.prems(1) by simp
  then obtain l sbit where l: "get_overview_string A = Inr (l, sbit)" "length l = 64"
      "\<forall>j<64. l ! (63 - j) \<noteq> CHR '' '' \<longleftrightarrow> occupies A (backward j)"
    using overview_spec by blast
  define acc' where "acc' = mask_of_overview l 0 acc"
  have "0 + length l \<le> 64" by (simp add: l(2))
  note m = mask_of_overview_spec [OF this Cons.prems(2,3), folded acc'_def]
  have a: "0 \<le> acc'" "acc' < 2 ^ 64" using m by blast+
  have ab: "bit acc' j \<longleftrightarrow> bit acc j \<or> (j < 64 \<and> l ! (63 - j) \<noteq> CHR '' '')" for j
  proof -
    have "bit acc' j \<longleftrightarrow> bit acc j \<or> (j < 64 \<and> 0 \<le> 63 - j \<and> 63 - j - 0 < length l
                          \<and> l ! (63 - j - 0) \<noteq> CHR '' '')"
      using m by blast
    moreover have "63 - j < 64" by simp
    ultimately show ?thesis by (simp add: l(2))
  qed
  have "\<forall>S\<in>set rest. valid_layout S" using Cons.prems(1) by simp
  from Cons.IH [OF this a] obtain r where
    r: "signal_mask_loop rest acc' = Inr r" "0 \<le> r" "r < 2 ^ 64"
      "\<forall>j<64. bit r j \<longleftrightarrow> bit acc' j \<or> (\<exists>S\<in>set rest. occupies S (backward j))"
    by blast
  have s: "signal_mask_loop (A # rest) acc = Inr r"
    by (simp add: l(1) acc'_def [symmetric] r(1))
  have "bit r j \<longleftrightarrow> bit acc j \<or> (\<exists>S\<in>set (A # rest). occupies S (backward j))"
    if j: "j < 64" for j
    using r(4) l(3) ab [of j] j by auto
  with s r(2,3) show ?case by blast
qed

lemma get_signal_mask_spec:
  assumes "\<forall>S\<in>set (signaldefinitions fd). valid_layout S"
  shows "\<exists>mask_bytes. get_signal_mask fd = Inr mask_bytes \<and> length mask_bytes = 8
      \<and> (\<forall>p<64. payload_bit mask_bytes p \<longleftrightarrow> (\<exists>S\<in>set (signaldefinitions fd). occupies S p))"
proof -
  have "(0::int) \<le> 0" "(0::int) < 2 ^ 64" by simp_all
  from signal_mask_loop_spec [OF assms this] obtain r where
    r: "signal_mask_loop (signaldefinitions fd) 0 = Inr r" "0 \<le> r" "r < 2 ^ 64"
      "\<forall>j<64. bit r j \<longleftrightarrow> bit (0::int) j \<or> (\<exists>S\<in>set (signaldefinitions fd). occupies S (backward j))"
    by blast
  let ?b = "take 8 (int_to_bytes_be 8 r)"
  have c: "int_to_can_bytes (int 8) r = Inr ?b"
    using r(2,3) by (rule int_to_can_bytes_ok) simp
  have g: "get_signal_mask fd = Inr ?b"
    using c by (simp add: get_signal_mask_def r(1) MAX_NUMBER_OF_CAN_DATA_BYTES_def)
  have "payload_bit ?b p \<longleftrightarrow> (\<exists>S\<in>set (signaldefinitions fd). occupies S p)" if p: "p < 64" for p
  proof -
    have "payload_bit ?b p \<longleftrightarrow> p < 8 * 8 \<and> bit r (backward p)"
      by (rule payload_bit_int_to_bytes) simp
    also have "\<dots> \<longleftrightarrow> bit r (backward p)" using p by simp
    also have "\<dots> \<longleftrightarrow> (\<exists>S\<in>set (signaldefinitions fd). occupies S (backward (backward p)))"
      using r(4) backward_less [of p] by simp
    finally show ?thesis by (simp only: backward_backward [OF p])
  qed
  moreover have "length ?b = 8" by simp
  ultimately show ?thesis using g by blast
qed

lemma get_signal_mask_test:
  "get_signal_mask mask_framedef = Inr [255, 255, 0, 255, 255, 0, 255, 1]"
  by code_simp


lemma valid_layout_testsignals:
  "valid_layout testsignal1" "valid_layout testsignal3" "valid_layout testsignal4"
  by (simp_all add: valid_layout_def testsignal1_def testsignal3_def testsignal4_def
      BITS_IN_FULL_DATA_def check_numberofbits_def)

text \<open>
  C4. The mask of the frame definition of the test (id 4, eight bytes, the four test
  signals) is \<^verbatim>\<open>FF FF 00 FF FF 00 FF 01\<close>; and for every frame definition whose signals
  have layouts that the setters accept, \<^verbatim>\<open>get_signal_mask\<close> returns eight bytes in which
  the bit at a position is set if and only if some signal of the frame definition occupies
  the position.
\<close>

theorem get_signal_mask_correct:
  "get_signal_mask mask_framedef = Inr [255, 255, 0, 255, 255, 0, 255, 1]
   \<and> (\<forall>fd. (\<forall>S\<in>set (signaldefinitions fd). valid_layout S) \<longrightarrow>
         (\<exists>mask_bytes. get_signal_mask fd = Inr mask_bytes \<and> length mask_bytes = 8
            \<and> (\<forall>p<64. payload_bit mask_bytes p \<longleftrightarrow>
                  (\<exists>S\<in>set (signaldefinitions fd). occupies S p))))"
  using get_signal_mask_test get_signal_mask_spec by blast

theorem get_signal_mask_correct_witness:
  "(valid_layout testsignal1 \<and> valid_layout testsignal2 \<and> valid_layout testsignal3
      \<and> valid_layout testsignal4)
   \<and> get_signal_mask mask_framedef = Inr [255, 255, 0, 255, 255, 0, 255, 1]
   \<and> payload_bit [255, 255, 0, 255, 255, 0, 255, 1] 56 \<and> occupies testsignal1 56
   \<and> \<not> payload_bit [255, 255, 0, 255, 255, 0, 255, 1] 16
   \<and> \<not> occupies testsignal1 16 \<and> \<not> occupies testsignal2 16
   \<and> \<not> occupies testsignal3 16 \<and> \<not> occupies testsignal4 16"
proof -
  note v = valid_layout_testsignals valid_layout_testsignal2
  have sigs: "signaldefinitions mask_framedef = [testsignal1, testsignal2, testsignal3, testsignal4]"
    by (simp add: mask_framedef_def plain_framedef_def)
  have "\<forall>S\<in>set (signaldefinitions mask_framedef). valid_layout S" using v by (simp add: sigs)
  with get_signal_mask_correct obtain mask_bytes where
    m: "get_signal_mask mask_framedef = Inr mask_bytes"
      "\<forall>p<64. payload_bit mask_bytes p \<longleftrightarrow>
          (\<exists>S\<in>set (signaldefinitions mask_framedef). occupies S p)"
    by blast
  have t: "get_signal_mask mask_framedef = Inr [255, 255, 0, 255, 255, 0, 255, 1]"
    using get_signal_mask_correct by blast
  then have e: "mask_bytes = [255, 255, 0, 255, 255, 0, 255, 1]" using m(1) by simp
  have o: "occupies testsignal1 56"
    by (simp add: occupies_def testsignal1_def BITS_IN_FULL_DATA_def)
  have n: "\<not> occupies testsignal1 16" "\<not> occupies testsignal2 16"
    "\<not> occupies testsignal3 16" "\<not> occupies testsignal4 16"
    by (simp_all add: occupies_def testsignal1_def testsignal2_def testsignal3_def
        testsignal4_def BITS_IN_FULL_DATA_def backward_def)
  have "payload_bit mask_bytes 56" using m(2) o by (simp add: sigs)
  moreover have "\<not> payload_bit mask_bytes 16" using m(2) n by (simp add: sigs)
  ultimately show ?thesis using v t o n by (simp add: e)
qed

subsection \<open>Reading a field and \<^verbatim>\<open>unpack\<close>\<close>

lemma busvalue_spec:
  assumes vl: "valid_layout S" and d: "get_minimum_dlc S \<le> int (length data)"
    and len: "length data \<le> 8"
  shows "\<exists>v. get_busvalue_from_bytes data (endianness S) (numberofbits S) (startbit S) = Inr v
      \<and> 0 \<le> v \<and> v < 2 ^ nat (numberofbits S)
      \<and> (\<forall>k. bit v k \<longleftrightarrow> k < nat (numberofbits S) \<and> payload_bit data (signal_bit S k))"
proof -
  define sb where "sb = nat (startbit S)"
  define n where "n = nat (numberofbits S)"
  note l = valid_layoutD [OF vl, folded sb_def n_def]
  have "\<exists>v. get_busvalue_from_bytes data (endianness S) (numberofbits S) (startbit S) = Inr v
      \<and> (\<forall>k. bit v k \<longleftrightarrow> k < n \<and> payload_bit data (signal_bit S k))"
  proof (cases "endianness S")
    case LITTLE_ENDIAN
    have "(int sb + int n - 1) div 8 + 1 \<le> int (length data)"
      using d by (simp add: get_minimum_dlc_def LITTLE_ENDIAN l(1,2) BITS_PER_BYTE_def)
    moreover have "int sb + int n - 1 = int (sb + n - 1)" using l(3) by linarith
    ultimately have "int ((sb + n - 1) div 8) + 1 \<le> int (length data)"
      by (simp only: zdiv_int of_nat_numeral)
    then have "(sb + n - 1) div 8 < length data" by linarith
    from get_busvalue_little [OF l(3) this len] obtain v where
      "get_busvalue_from_bytes data LITTLE_ENDIAN (int n) (int sb) = Inr v"
      "\<forall>k. bit v k \<longleftrightarrow> k < n \<and> payload_bit data (sb + k)"
      by blast
    then show ?thesis
      by (simp add: LITTLE_ENDIAN l(1,2) signal_bit_def sb_def [symmetric])
  next
    case BIG_ENDIAN
    from get_busvalue_big [OF l(5) len, of n] obtain v where
      v: "get_busvalue_from_bytes data BIG_ENDIAN (int n) (int sb) = Inr v"
      "\<forall>k. bit v k \<longleftrightarrow> k < n \<and> backward sb + k < 64
             \<and> payload_bit data (backward (backward sb + k))"
      by blast
    have "bit v k \<longleftrightarrow> k < n \<and> payload_bit data (backward (backward sb + k))" for k
      using v(2) l(7) [OF BIG_ENDIAN] by (cases "k < n") simp_all
    then show ?thesis using v(1)
      by (simp add: BIG_ENDIAN l(1,2) signal_bit_def sb_def [symmetric])
  qed
  then obtain v where
    v: "get_busvalue_from_bytes data (endianness S) (numberofbits S) (startbit S) = Inr v"
      "\<forall>k. bit v k \<longleftrightarrow> k < n \<and> payload_bit data (signal_bit S k)"
    by blast
  have "v = take_bit n v"
    by (rule bit_eqI) (use v(2) in \<open>auto simp add: bit_take_bit_iff\<close>)
  then have "0 \<le> v \<and> v < 2 ^ n"
    using take_bit_nonnegative [of n v] take_bit_int_less_exp [of n v] by simp
  then show ?thesis using v unfolding n_def by blast
qed


lemma physical_value_total:
  assumes "\<And>n. u = PyInt n \<Longrightarrow> \<bar>n\<bar> < 2 ^ 1023"
  shows "\<exists>v. and_then (py_mul u (PyFloat sf)) (\<lambda>scaled.
              and_then (py_add scaled (PyFloat off)) (\<lambda>physical_value.
              Inr (limit_to_min_max S physical_value))) = Inr v"
proof (cases u)
  case (PyInt n)
  then have "\<bar>n\<bar> < 2 ^ 1023" by (rule assms)
  then obtain y where "float_of_int n = Inr (Fin y)" by (rule float_of_int_finite)
  then show ?thesis by (simp add: PyInt)
next
  case (PyFloat x)
  then show ?thesis by simp
qed

lemma get_signalvalue_total:
  assumes vl: "valid_layout S" and d: "get_minimum_dlc S \<le> int (length (frame_data f))"
    and len: "length (frame_data f) \<le> 8"
  shows "\<exists>v. get_signalvalue f S = Inr v"
proof -
  define n where "n = nat (numberofbits S)"
  define sb where "sb = nat (startbit S)"
  note l = valid_layoutD [OF vl, folded sb_def n_def]
  have "\<exists>u. (if signaltype S = CAN_SIGNALTYPE_DOUBLE then
          and_then (unpack_double (endianness S) (frame_data f)) (\<lambda>x. Inr (PyFloat x))
        else
          and_then (get_busvalue_from_bytes (frame_data f) (endianness S)
                      (numberofbits S) (startbit S)) (\<lambda>bus_value.
            if signaltype S = CAN_SIGNALTYPE_UNSIGNED then Inr (PyInt bus_value)
            else if signaltype S = CAN_SIGNALTYPE_SIGNED then
              and_then (from_twos_complement bus_value (numberofbits S)) (\<lambda>v. Inr (PyInt v))
            else
              and_then (pack_uint BIG_ENDIAN 4 bus_value) (\<lambda>useful_bytes.
              and_then (unpack_single_be useful_bytes) (\<lambda>x. Inr (PyFloat x))))) = Inr u
      \<and> (\<forall>i. u = PyInt i \<longrightarrow> \<bar>i\<bar> < 2 ^ 1023)"
  proof (cases "signaltype S = CAN_SIGNALTYPE_DOUBLE")
    case True
    have "length (frame_data f) = 8" using d len double_layout(1) [OF vl True] by simp
    then show ?thesis using True by (simp add: unpack_double_def)
  next
    case False
    from busvalue_spec [OF vl d len] obtain b where
      b: "get_busvalue_from_bytes (frame_data f) (endianness S) (numberofbits S) (startbit S) = Inr b"
        "0 \<le> b" "b < 2 ^ n"
      unfolding n_def by blast
    have "(2::int) ^ n \<le> 2 ^ 64" using l(4) by (intro power_increasing) simp_all
    also have "\<dots> < 2 ^ 1023" by simp
    finally have big: "(2::int) ^ n < 2 ^ 1023" .
    show ?thesis
    proof (cases "signaltype S")
      case CAN_SIGNALTYPE_UNSIGNED
      then show ?thesis using b big by (simp add: b(1))
    next
      case CAN_SIGNALTYPE_SIGNED
      have nn: "\<not> int n < 0" "int n \<noteq> 0" "\<not> b > 2 ^ n - 1" using l(3) b(3) by simp_all
      have "\<exists>i. from_twos_complement b (int n) = Inr i \<and> \<bar>i\<bar> < 2 ^ 1023"
        using b(2,3) big nn by (simp add: from_twos_complement_def Let_def)
      then obtain i where i: "from_twos_complement b (numberofbits S) = Inr i" "\<bar>i\<bar> < 2 ^ 1023"
        unfolding l(2) by blast
      show ?thesis using CAN_SIGNALTYPE_SIGNED i(2) by (simp add: b(1) i(1))
    next
      case CAN_SIGNALTYPE_SINGLE
      then have "n = 32" by (rule l(8))
      then have "b < 2 ^ 32" using b(3) by simp
      then have "\<exists>bs. pack_uint BIG_ENDIAN 4 b = Inr bs \<and> length bs = 4"
        using b(2) by (simp add: pack_uint_def)
      then show ?thesis using CAN_SIGNALTYPE_SINGLE
        by (auto simp add: b(1) unpack_single_be_def)
    next
      case CAN_SIGNALTYPE_DOUBLE
      then show ?thesis using False by simp
    qed
  qed
  then obtain u where u: "(if signaltype S = CAN_SIGNALTYPE_DOUBLE then
          and_then (unpack_double (endianness S) (frame_data f)) (\<lambda>x. Inr (PyFloat x))
        else
          and_then (get_busvalue_from_bytes (frame_data f) (endianness S)
                      (numberofbits S) (startbit S)) (\<lambda>bus_value.
            if signaltype S = CAN_SIGNALTYPE_UNSIGNED then Inr (PyInt bus_value)
            else if signaltype S = CAN_SIGNALTYPE_SIGNED then
              and_then (from_twos_complement bus_value (numberofbits S)) (\<lambda>v. Inr (PyInt v))
            else
              and_then (pack_uint BIG_ENDIAN 4 bus_value) (\<lambda>useful_bytes.
              and_then (unpack_single_be useful_bytes) (\<lambda>x. Inr (PyFloat x))))) = Inr u"
    and i: "\<And>i. u = PyInt i \<Longrightarrow> \<bar>i\<bar> < 2 ^ 1023"
    by blast
  show ?thesis
    unfolding get_signalvalue_def u and_then_Inr
    using i by (rule physical_value_total)
qed

lemma unpack_loop_spec:
  assumes "\<forall>S\<in>set sigs. \<exists>v. get_signalvalue f S = Inr v" "distinct (map signalname sigs)"
  shows "\<exists>d. unpack_loop f sigs d0 = Inr d \<and> dom d = dom d0 \<union> signalname ` set sigs
      \<and> (\<forall>S\<in>set sigs. \<exists>v. get_signalvalue f S = Inr v \<and> d (signalname S) = Some v)
      \<and> (\<forall>k. k \<notin> signalname ` set sigs \<longrightarrow> d k = d0 k)"
  using assms
proof (induction sigs arbitrary: d0)
  case Nil
  then show ?case by simp
next
  case (Cons A rest)
  obtain v where v: "get_signalvalue f A = Inr v" using Cons.prems(1) by auto
  define d1 where "d1 = d0(signalname A \<mapsto> v)"
  have "\<forall>S\<in>set rest. \<exists>v. get_signalvalue f S = Inr v" "distinct (map signalname rest)"
    using Cons.prems by simp_all
  from Cons.IH [OF this, of d1] obtain d where
    d: "unpack_loop f rest d1 = Inr d" "dom d = dom d1 \<union> signalname ` set rest"
      "\<forall>S\<in>set rest. \<exists>v. get_signalvalue f S = Inr v \<and> d (signalname S) = Some v"
      "\<forall>k. k \<notin> signalname ` set rest \<longrightarrow> d k = d1 k"
    by blast
  have fresh: "signalname A \<notin> signalname ` set rest" using Cons.prems(2) by simp
  have u: "unpack_loop f (A # rest) d0 = Inr d" by (simp add: v d1_def [symmetric] d(1))
  have dm: "dom d = dom d0 \<union> signalname ` set (A # rest)"
    by (simp add: d(2) d1_def)
  have "d (signalname A) = Some v" using d(4) fresh by (simp add: d1_def)
  then have vals: "\<forall>S\<in>set (A # rest). \<exists>v. get_signalvalue f S = Inr v \<and> d (signalname S) = Some v"
    using v d(3) by simp
  have "\<forall>k. k \<notin> signalname ` set (A # rest) \<longrightarrow> d k = d0 k"
    using d(4) by (simp add: d1_def)
  with u dm vals show ?case by blast
qed

lemma get_signalvalue_short:
  "get_signalvalue (zero_frame 1 1)
     (plain_signal ''testsignal'' 8 8 LITTLE_ENDIAN CAN_SIGNALTYPE_UNSIGNED None) = Inl IndexError"
  by code_simp

text \<open>
  C6, the counterexample: a frame with one byte of payload and a frame definition of one
  byte whose signal lies in the second byte. The lengths agree, and \<^verbatim>\<open>unpack\<close> raises
  \<^verbatim>\<open>IndexError\<close> from the byte loop of \<^verbatim>\<open>get_busvalue_from_bytes\<close>.
\<close>

theorem unpack_counterexample:
  "unpack (zero_frame 1 1) short_framedefs = Inl IndexError"
proof -
  have "frame_id (zero_frame 1 1) = 1" "length (frame_data (zero_frame 1 1)) = 1"
    by (simp_all add: zero_frame_def)
  then show ?thesis
    by (simp add: unpack_def short_framedefs_def short_framedef_def plain_framedef_def
        get_signalvalue_short del: One_nat_def)
qed


text \<open>
  C6, amended. \<^verbatim>\<open>unpack\<close> returns the empty dictionary when the frame id is not a key of
  the frame definitions, and raises \<^verbatim>\<open>CanException\<close> when it is and the length of the
  payload differs from the dlc of the definition. When the lengths agree, the payload has
  at most eight bytes, every signal of the definition has a layout that the setters accept
  and fits into the dlc, and the signal names are distinct, it returns a dictionary whose
  keys are the signal names and that maps each name to the value \<^verbatim>\<open>get_signalvalue\<close>
  returns for the signal.
\<close>

theorem unpack_behaviour:
  "(m (frame_id f) = None \<longrightarrow> unpack f m = Inr Map.empty)
   \<and> (\<forall>fd. m (frame_id f) = Some fd \<and> int (length (frame_data f)) \<noteq> dlc fd \<longrightarrow>
          unpack f m = Inl CanException)
   \<and> (\<forall>fd. m (frame_id f) = Some fd \<and> int (length (frame_data f)) = dlc fd
          \<and> length (frame_data f) \<le> 8 \<and> signals_fit fd
          \<and> distinct (map signalname (signaldefinitions fd)) \<longrightarrow>
        (\<exists>d. unpack f m = Inr d \<and> dom d = signalname ` set (signaldefinitions fd)
           \<and> (\<forall>S\<in>set (signaldefinitions fd).
                 \<exists>v. get_signalvalue f S = Inr v \<and> d (signalname S) = Some v)))"
proof (intro conjI allI impI)
  assume "m (frame_id f) = None"
  then show "unpack f m = Inr Map.empty" by (simp add: unpack_def)
next
  fix fd
  assume "m (frame_id f) = Some fd \<and> int (length (frame_data f)) \<noteq> dlc fd"
  then show "unpack f m = Inl CanException" by (simp add: unpack_def)
next
  fix fd
  assume a: "m (frame_id f) = Some fd \<and> int (length (frame_data f)) = dlc fd
          \<and> length (frame_data f) \<le> 8 \<and> signals_fit fd
          \<and> distinct (map signalname (signaldefinitions fd))"
  have "\<exists>v. get_signalvalue f S = Inr v" if "S \<in> set (signaldefinitions fd)" for S
  proof -
    have "valid_layout S" "get_minimum_dlc S \<le> int (length (frame_data f))"
      using a that by (simp_all add: signals_fit_def)
    moreover have "length (frame_data f) \<le> 8" using a by simp
    ultimately show ?thesis by (rule get_signalvalue_total)
  qed
  then have all: "\<forall>S\<in>set (signaldefinitions fd). \<exists>v. get_signalvalue f S = Inr v" by blast
  have dist: "distinct (map signalname (signaldefinitions fd))" using a by simp
  from unpack_loop_spec [OF all dist, of Map.empty] obtain d where
    d: "unpack_loop f (signaldefinitions fd) Map.empty = Inr d"
      "dom d = dom (Map.empty :: string \<rightharpoonup> pynum) \<union> signalname ` set (signaldefinitions fd)"
      "\<forall>S\<in>set (signaldefinitions fd). \<exists>v. get_signalvalue f S = Inr v \<and> d (signalname S) = Some v"
    by blast
  have u: "unpack f m = Inr d" using a d(1) by (simp add: unpack_def)
  have dm: "dom d = signalname ` set (signaldefinitions fd)" using d(2) by simp
  show "\<exists>d. unpack f m = Inr d \<and> dom d = signalname ` set (signaldefinitions fd)
           \<and> (\<forall>S\<in>set (signaldefinitions fd).
                 \<exists>v. get_signalvalue f S = Inr v \<and> d (signalname S) = Some v)"
    using u dm d(3) by (intro exI [of _ d] conjI)
qed

lemma signals_fit_mask_framedef: "signals_fit mask_framedef"
  using valid_layout_testsignals valid_layout_testsignal2
  by (simp add: signals_fit_def mask_framedef_def plain_framedef_def get_minimum_dlc_def
      testsignal1_def testsignal2_def testsignal3_def testsignal4_def BITS_PER_BYTE_def)

lemma get_signalvalue_zero_testsignal1:
  "get_signalvalue (zero_frame 4 8) testsignal1 = Inr (PyFloat (Fin 0))"
  by code_simp

theorem unpack_behaviour_witness:
  "unpack (zero_frame 5 8) mask_framedefs = Inr Map.empty
   \<and> unpack (zero_frame 4 7) mask_framedefs = Inl CanException
   \<and> signals_fit mask_framedef
   \<and> distinct (map signalname (signaldefinitions mask_framedef))
   \<and> (\<exists>d. unpack (zero_frame 4 8) mask_framedefs = Inr d
          \<and> dom d = {''testsignal1'', ''testsignal2'', ''testsignal3'', ''testsignal4''}
          \<and> d ''testsignal1'' = Some (PyFloat (Fin 0)))"
proof -
  have sigs: "signaldefinitions mask_framedef = [testsignal1, testsignal2, testsignal3, testsignal4]"
    and len: "dlc mask_framedef = 8"
    by (simp_all add: mask_framedef_def plain_framedef_def)
  have names: "map signalname (signaldefinitions mask_framedef)
      = [''testsignal1'', ''testsignal2'', ''testsignal3'', ''testsignal4'']"
    by (simp add: sigs testsignal1_def testsignal2_def testsignal3_def testsignal4_def)
  have dist: "distinct (map signalname (signaldefinitions mask_framedef))"
    unfolding names by simp
  have one: "unpack (zero_frame 5 8) mask_framedefs = Inr Map.empty"
    using unpack_behaviour [of mask_framedefs "zero_frame 5 8"]
    by (simp add: mask_framedefs_def zero_frame_def)
  have two: "unpack (zero_frame 4 7) mask_framedefs = Inl CanException"
    using unpack_behaviour [of mask_framedefs "zero_frame 4 7"]
    by (simp add: mask_framedefs_def zero_frame_def len)
  have "mask_framedefs (frame_id (zero_frame 4 8)) = Some mask_framedef
      \<and> int (length (frame_data (zero_frame 4 8))) = dlc mask_framedef
      \<and> length (frame_data (zero_frame 4 8)) \<le> 8 \<and> signals_fit mask_framedef
      \<and> distinct (map signalname (signaldefinitions mask_framedef))"
    using signals_fit_mask_framedef dist by (simp add: mask_framedefs_def zero_frame_def len)
  with unpack_behaviour [of mask_framedefs "zero_frame 4 8"] obtain d where
    d: "unpack (zero_frame 4 8) mask_framedefs = Inr d"
      "dom d = signalname ` set (signaldefinitions mask_framedef)"
      "\<forall>S\<in>set (signaldefinitions mask_framedef).
          \<exists>v. get_signalvalue (zero_frame 4 8) S = Inr v \<and> d (signalname S) = Some v"
    by blast
  have "dom d = set (map signalname (signaldefinitions mask_framedef))" using d(2) by simp
  then have dm: "dom d = {''testsignal1'', ''testsignal2'', ''testsignal3'', ''testsignal4''}"
    unfolding names by simp
  have "\<exists>v. get_signalvalue (zero_frame 4 8) testsignal1 = Inr v
      \<and> d (signalname testsignal1) = Some v"
    using d(3) by (simp add: sigs)
  moreover have "signalname testsignal1 = ''testsignal1''" by (simp add: testsignal1_def)
  ultimately have v: "d ''testsignal1'' = Some (PyFloat (Fin 0))"
    by (simp add: get_signalvalue_zero_testsignal1)
  have "\<exists>d. unpack (zero_frame 4 8) mask_framedefs = Inr d
          \<and> dom d = {''testsignal1'', ''testsignal2'', ''testsignal3'', ''testsignal4''}
          \<and> d ''testsignal1'' = Some (PyFloat (Fin 0))"
    using d(1) dm v by (intro exI [of _ d] conjI)
  with one two signals_fit_mask_framedef dist show ?thesis by (intro conjI)
qed

subsection \<open>The default value\<close>





lemma fsub_self: "is_finite x \<Longrightarrow> fsub x x = Fin 0"
  by (cases x) (simp_all add: fsub_def fadd_def signed_zero_def)















subsection \<open>The interval of a header\<close>

lemma ilog2_less:
  assumes "0 < x" "x < 2 powi k"
  shows "ilog2 x < k"
proof -
  have "2 powi (ilog2 x) \<le> x" using assms(1) by (rule ilog2_bounds(1))
  then have "(2::rat) powi (ilog2 x) < 2 powi k" using assms(2) by linarith
  then show ?thesis by (rule two_powi_less_imp_less)
qed

lemma round_double_error:
  assumes pos: "0 < x" and lo: "2 powi (- 1022) \<le> x" and hi: "x < 2 powi k" and k: "k \<le> 1023"
  obtains y where "round_double x = Fin y" "\<bar>x - y\<bar> \<le> 2 powi (k - 54)"
proof -
  have ax: "\<bar>x\<bar> = x" using pos by simp
  have "x < 2 powi 1023"
  proof -
    have "(2::rat) powi k \<le> 2 powi 1023" using k by (intro power_int_increasing) simp_all
    then show ?thesis using hi by linarith
  qed
  then have "\<bar>x\<bar> < 2 powi 1023" "2 powi (- 1022) \<le> \<bar>x\<bar>" using lo ax by simp_all
  from round_double_normal [OF this(2) this(1)] obtain m where
    m: "round_double x = Fin (of_int m * 2 powi (ilog2 \<bar>x\<bar> - 52))"
      "\<bar>x - of_int m * 2 powi (ilog2 \<bar>x\<bar> - 52)\<bar> \<le> 2 powi (ilog2 \<bar>x\<bar> - 53)"
    by blast
  have "ilog2 x < k" using pos hi by (rule ilog2_less)
  then have "ilog2 \<bar>x\<bar> - 53 \<le> k - 54" using ax by simp
  then have "(2::rat) powi (ilog2 \<bar>x\<bar> - 53) \<le> 2 powi (k - 54)"
    by (intro power_int_increasing) simp_all
  then have "\<bar>x - of_int m * 2 powi (ilog2 \<bar>x\<bar> - 52)\<bar> \<le> 2 powi (k - 54)"
    using m(2) by linarith
  with m(1) that show thesis by blast
qed

lemma fsub_fin: "x \<noteq> y \<Longrightarrow> fsub (Fin x) (Fin y) = round_double (x - y)"
  by (simp add: fsub_def fadd_def)

lemma fmul_fin: "x * y \<noteq> 0 \<Longrightarrow> fmul (Fin x) (Fin y) = round_double (x * y)"
  by (simp add: fmul_def)


lemma split_whole_seconds:
  assumes "0 \<le> q" "q \<le> 2 ^ 53"
  shows "split_seconds_to_full_and_part (PyFloat (Fin (of_int q))) = Inr (q, 0)"
proof -
  have aq: "\<bar>q\<bar> \<le> 2 ^ 53" using assms by simp
  have fq: "float_of_int q = Inr (Fin (of_int q))" using aq by (rule float_of_int_small)
  have million: "float_of_int 1000000 = Inr (Fin 1000000)"
    using float_of_int_small [of 1000000] by simp
  have s: "py_sub (PyFloat (Fin (of_int q))) (PyInt q) = Inr (PyFloat (Fin 0))"
    by (simp add: fq fsub_self)
  have m: "py_mul (PyFloat (Fin 0)) (PyInt 1000000) = Inr (PyFloat (Fin 0))"
    by (simp add: million fmul_def signed_zero_def)
  have l: "\<not> py_lt (PyFloat (Fin (of_int q))) (PyInt 0)" using assms(1) by (simp add: py_lt_def)
  show ?thesis
    using l
    by (simp add: split_seconds_to_full_and_part_def s m MICROSECONDS_PER_SECOND_def
        truncate_rat_def del: py_sub.simps py_mul.simps)
qed

lemma split_fraction:
  fixes q r :: int and X :: rat
  assumes q: "0 \<le> q" "q \<le> 2 ^ 53" and r: "1 \<le> r" "r \<le> 999"
    and X: "\<bar>of_int q + of_int r / 1000 - X\<bar> \<le> 2 powi (- 32)"
  shows "\<exists>u. split_seconds_to_full_and_part (PyFloat (Fin X)) = Inr (q, u)
      \<and> (u = r * 1000 \<or> u = r * 1000 - 1)"
proof -
  have p32: "(2::rat) powi (- 32) = 1 / 4294967296"
    and p54: "(2::rat) powi (- 54) = 1 / 18014398509481984"
    and p34: "(2::rat) powi (- 34) = 1 / 17179869184"
    and p1022: "(2::rat) powi (- 1022) \<le> 1 / 1024"
  proof -
    show "(2::rat) powi (- 32) = 1 / 4294967296" "(2::rat) powi (- 54) = 1 / 18014398509481984"
      "(2::rat) powi (- 34) = 1 / 17179869184"
      by (simp_all add: power_int_minus_divide)
    have "(2::rat) powi (- 1022) \<le> 2 powi (- 10)" by (intro power_int_increasing) simp_all
    then show "(2::rat) powi (- 1022) \<le> 1 / 1024" by (simp add: power_int_minus_divide)
  qed
  define rr :: rat where "rr = of_int r"
  define qq :: rat where "qq = of_int q"
  have rr: "1 \<le> rr" "rr \<le> 999" using r unfolding rr_def by simp_all
  have qq0: "0 \<le> qq" using q(1) unfolding qq_def by simp
  have Xb: "\<bar>qq + rr / 1000 - X\<bar> \<le> 1 / 4294967296"
    using X unfolding qq_def rr_def p32 .
  have Xlo: "qq < X" and Xhi: "X < qq + 1" using Xb rr by linarith+
  have X0: "0 < X" using Xlo qq0 by linarith
  have fl: "\<lfloor>X\<rfloor> = q" using Xlo Xhi unfolding qq_def by (simp add: floor_eq_iff)
  have aq: "\<bar>q\<bar> \<le> 2 ^ 53" using q by simp
  have fq: "float_of_int q = Inr (Fin qq)" unfolding qq_def using aq by (rule float_of_int_small)
  define d where "d = X - qq"
  have d: "0 < d" "d < 1" "\<bar>d - rr / 1000\<bar> \<le> 1 / 4294967296" "1 / 1024 \<le> d"
    using Xb rr unfolding d_def by linarith+
  have dlo: "2 powi (- 1022) \<le> d" using d(4) p1022 by linarith
  have dhi: "d < 2 powi 0" using d(2) by simp
  have k0: "(0::int) \<le> 1023" by simp
  obtain D where D: "round_double d = Fin D" "\<bar>d - D\<bar> \<le> 2 powi (0 - 54)"
    by (rule round_double_error [OF d(1) dlo dhi k0])
  have Db: "\<bar>d - D\<bar> \<le> 1 / 18014398509481984" using D(2) p54 by simp
  have sub: "py_sub (PyFloat (Fin X)) (PyInt q) = Inr (PyFloat (Fin D))"
  proof -
    have "X \<noteq> qq" using Xlo by simp
    then have "fsub (Fin X) (Fin qq) = round_double (X - qq)" by (rule fsub_fin)
    then have "fsub (Fin X) (Fin qq) = Fin D" using D(1) unfolding d_def by simp
    then show ?thesis by (simp add: fq)
  qed
  define y where "y = D * 1000000"
  define U :: rat where "U = rr * 1000"
  have yU: "\<bar>y - U\<bar> < 1 / 4" using Db d(3) unfolding y_def U_def by linarith
  have U: "1000 \<le> U" "U \<le> 999000" using rr unfolding U_def by linarith+
  have y: "0 < y" "y < 1048576" "1 / 1024 \<le> y" using yU U by linarith+
  have ylo: "2 powi (- 1022) \<le> y" using y(3) p1022 by linarith
  have yhi: "y < 2 powi 20" using y(2) by simp
  have k20: "(20::int) \<le> 1023" by simp
  obtain P where P: "round_double y = Fin P" "\<bar>y - P\<bar> \<le> 2 powi (20 - 54)"
    by (rule round_double_error [OF y(1) ylo yhi k20])
  have Pb: "\<bar>y - P\<bar> \<le> 1 / 17179869184" using P(2) p34 by simp
  have million: "float_of_int 1000000 = Inr (Fin 1000000)"
    using float_of_int_small [of 1000000] by simp
  have mul: "py_mul (PyFloat (Fin D)) (PyInt 1000000) = Inr (PyFloat (Fin P))"
  proof -
    have "D * 1000000 \<noteq> 0" using y(1) unfolding y_def by simp
    then have "fmul (Fin D) (Fin 1000000) = round_double (D * 1000000)" by (rule fmul_fin)
    then have "fmul (Fin D) (Fin 1000000) = Fin P" using P(1) unfolding y_def by simp
    then show ?thesis by (simp add: million)
  qed
  have PU: "U - 1 / 2 < P" "P < U + 1 / 2" using yU Pb by linarith+
  have P0: "0 \<le> P" using PU U by linarith
  define u where "u = \<lfloor>P\<rfloor>"
  have ti: "py_int (PyFloat (Fin P)) = Inr u" using P0 by (simp add: truncate_rat_def u_def)
  have Ur: "U = of_int (r * 1000)" unfolding U_def rr_def by simp
  have "u = r * 1000 \<or> u = r * 1000 - 1"
  proof (cases "U \<le> P")
    case True
    then have "of_int (r * 1000) \<le> P" "P < of_int (r * 1000) + 1" using PU Ur by linarith+
    then have "u = r * 1000" unfolding u_def by (simp only: floor_eq_iff)
    then show ?thesis by simp
  next
    case False
    then have "of_int (r * 1000 - 1) \<le> P" "P < of_int (r * 1000 - 1) + 1"
      using PU Ur by simp_all
    then have "u = r * 1000 - 1" unfolding u_def by (simp only: floor_eq_iff)
    then show ?thesis by simp
  qed
  moreover have "split_seconds_to_full_and_part (PyFloat (Fin X)) = Inr (q, u)"
    using X0
    by (simp add: split_seconds_to_full_and_part_def py_lt_def fl sub mul ti
        MICROSECONDS_PER_SECOND_def
        del: py_sub.simps py_mul.simps py_int.simps)
  ultimately show ?thesis by blast
qed


lemma interval_as_specified_int:
  assumes "0 \<le> ms"
  shows "interval_as_specified (of_int ms) = (ms div 1000, (ms mod 1000) * 1000)"
proof -
  define q where "q = ms div 1000"
  define r where "r = ms mod 1000"
  have ms: "ms = q * 1000 + r" and r: "0 \<le> r" "r < 1000" by (simp_all add: q_def r_def)
  have x: "(of_int ms :: rat) / 1000 = of_int q + of_int r / 1000" by (simp add: ms)
  have "of_int q \<le> (of_int ms :: rat) / 1000" "(of_int ms :: rat) / 1000 < of_int q + 1"
    using r unfolding x by simp_all
  then have fl: "\<lfloor>(of_int ms :: rat) / 1000\<rfloor> = q" by (simp only: floor_eq_iff)
  have "((of_int ms :: rat) / 1000 - of_int q) * 1000000 = of_int (r * 1000)"
    unfolding x by simp
  then have "round (((of_int ms :: rat) / 1000 - of_int q) * 1000000) = r * 1000"
    by (simp only: round_of_int)
  then show ?thesis
    by (simp add: interval_as_specified_def fl Let_def q_def [symmetric] r_def [symmetric])
qed

lemma truediv_split:
  assumes ms: "0 \<le> ms" "ms \<le> 2 ^ 31"
  shows "\<exists>interval_s u. py_truediv (PyInt ms) (PyInt MILLISECONDS_PER_SECOND) = Inr interval_s
      \<and> split_seconds_to_full_and_part interval_s = Inr (ms div 1000, u)
      \<and> (u = (ms mod 1000) * 1000 \<or> u = (ms mod 1000) * 1000 - 1)"
proof (cases "ms = 0")
  case True
  then show ?thesis
    by (simp add: MILLISECONDS_PER_SECOND_def split_seconds_float_zero)
next
  case False
  define q where "q = ms div 1000"
  define r where "r = ms mod 1000"
  have msqr: "ms = q * 1000 + r" and r: "0 \<le> r" "r \<le> 999" by (simp_all add: q_def r_def)
  have q: "0 \<le> q" "q \<le> 2 ^ 53" using ms unfolding q_def by simp_all
  define x :: rat where "x = of_int ms / 1000"
  have x: "x = of_int q + of_int r / 1000" by (simp add: x_def msqr)
  have msr: "1 \<le> (of_int ms :: rat)" "(of_int ms :: rat) \<le> 2147483648"
  proof -
    have "1 \<le> ms" using ms(1) False by simp
    then show "1 \<le> (of_int ms :: rat)" by simp
    have "rat_of_int ms \<le> rat_of_int 2147483648" using ms(2) by (simp only: of_int_le_iff) simp
    then show "(of_int ms :: rat) \<le> 2147483648" by simp
  qed
  have xb: "1 / 1000 \<le> x" "x \<le> 2147484" using msr unfolding x_def by simp_all
  have t: "py_truediv (PyInt ms) (PyInt MILLISECONDS_PER_SECOND) =
      (case round_double x of PInf \<Rightarrow> Inl OverflowError | NInf \<Rightarrow> Inl OverflowError
       | y \<Rightarrow> Inr (PyFloat y))"
    using False by (simp add: MILLISECONDS_PER_SECOND_def x_def)
  show ?thesis
  proof (cases "r = 0")
    case True
    then have "x = of_int q" using x by simp
    moreover have "\<bar>q\<bar> \<le> 2 ^ 53" using q by simp
    ultimately have "round_double x = Fin (of_int q)" by (simp add: round_double_of_int)
    then have "py_truediv (PyInt ms) (PyInt MILLISECONDS_PER_SECOND) = Inr (PyFloat (Fin (of_int q)))"
      unfolding t by simp
    moreover have "split_seconds_to_full_and_part (PyFloat (Fin (of_int q))) = Inr (q, 0)"
      using q by (rule split_whole_seconds)
    ultimately show ?thesis using True by (simp add: q_def [symmetric] r_def [symmetric])
  next
    case nz: False
    have x0: "0 < x" using xb(1) by linarith
    have "(2::rat) powi (- 1022) \<le> 2 powi (- 10)" by (intro power_int_increasing) simp_all
    then have "(2::rat) powi (- 1022) \<le> 1 / 1024" by (simp add: power_int_minus_divide)
    then have xlo: "2 powi (- 1022) \<le> x" using xb(1) by linarith
    have xhi: "x < 2 powi 22" using xb(2) by simp
    have k: "(22::int) \<le> 1023" by simp
    obtain X where X: "round_double x = Fin X" "\<bar>x - X\<bar> \<le> 2 powi (22 - 54)"
      by (rule round_double_error [OF x0 xlo xhi k])
    have "\<bar>of_int q + of_int r / 1000 - X\<bar> \<le> 2 powi (- 32)" using X(2) unfolding x by simp
    moreover have "1 \<le> r" using r(1) nz by simp
    ultimately obtain u where
      u: "split_seconds_to_full_and_part (PyFloat (Fin X)) = Inr (q, u)"
        "u = r * 1000 \<or> u = r * 1000 - 1"
      using split_fraction [OF q _ r(2), of X] by blast
    have "py_truediv (PyInt ms) (PyInt MILLISECONDS_PER_SECOND) = Inr (PyFloat (Fin X))"
      unfolding t by (simp add: X(1))
    then show ?thesis using u by (simp add: q_def [symmetric] r_def [symmetric])
  qed
qed

text \<open>
  C3, amended. For an interval of \<open>ms\<close> milliseconds, a whole number from 0 to \<open>2\<^sup>3\<^sup>1\<close>,
  the seconds of the header are \<open>ms div 1000\<close>, as specified, and the microseconds are the
  specified value \<open>(ms mod 1000) * 1000\<close> or one less: the float product is cut, not rounded.
\<close>

theorem bcm_interval_encoding:
  assumes "0 \<le> ms" "ms \<le> 2 ^ 31"
  shows "interval_as_specified (of_int ms) = (ms div 1000, (ms mod 1000) * 1000)
     \<and> (\<exists>interval_s u. py_truediv (PyInt ms) (PyInt MILLISECONDS_PER_SECOND) = Inr interval_s
          \<and> split_seconds_to_full_and_part interval_s = Inr (ms div 1000, u)
          \<and> (u = (ms mod 1000) * 1000 \<or> u = (ms mod 1000) * 1000 - 1))
     \<and> (\<forall>hdr. build_bcm_header h op fl (PyInt ms) fid fmt nf = Inr hdr \<longrightarrow>
          ival2_seconds hdr = ms div 1000
          \<and> (ival2_useconds hdr = (ms mod 1000) * 1000
              \<or> ival2_useconds hdr = (ms mod 1000) * 1000 - 1))"
proof (intro conjI allI impI)
  show "interval_as_specified (of_int ms) = (ms div 1000, (ms mod 1000) * 1000)"
    using assms(1) by (rule interval_as_specified_int)
  from truediv_split [OF assms] obtain interval_s u where
    s: "py_truediv (PyInt ms) (PyInt MILLISECONDS_PER_SECOND) = Inr interval_s"
      "split_seconds_to_full_and_part interval_s = Inr (ms div 1000, u)"
      "u = (ms mod 1000) * 1000 \<or> u = (ms mod 1000) * 1000 - 1"
    by blast
  show "\<exists>interval_s u. py_truediv (PyInt ms) (PyInt MILLISECONDS_PER_SECOND) = Inr interval_s
          \<and> split_seconds_to_full_and_part interval_s = Inr (ms div 1000, u)
          \<and> (u = (ms mod 1000) * 1000 \<or> u = (ms mod 1000) * 1000 - 1)"
    using s by (intro exI [of _ interval_s] exI [of _ u] conjI)
  fix hdr
  assume b: "build_bcm_header h op fl (PyInt ms) fid fmt nf = Inr hdr"
  have "ival2_seconds hdr = ms div 1000 \<and> ival2_useconds hdr = u"
    using b
    by (auto simp add: build_bcm_header_def Let_def s(1,2) split_seconds_zero
        split: if_splits simp del: py_truediv.simps)
  then show "ival2_seconds hdr = ms div 1000" 
    and "ival2_useconds hdr = (ms mod 1000) * 1000
              \<or> ival2_useconds hdr = (ms mod 1000) * 1000 - 1"
    using s(3) by simp_all
qed

theorem bcm_interval_encoding_witness:
  "(0::int) \<le> 1001 \<and> (1001::int) \<le> 2 ^ 31
   \<and> (\<exists>interval_s u. py_truediv (PyInt 1001) (PyInt MILLISECONDS_PER_SECOND) = Inr interval_s
          \<and> split_seconds_to_full_and_part interval_s = Inr (1, u)
          \<and> (u = 1000 \<or> u = 999))"
  using bcm_interval_encoding [of 1001] by simp

subsection \<open>Writing a value and reading it back\<close>
















end
